theory Spec2Isabelle
  imports Complex_Main "HOL-Library.Sublist" "HOL-Library.AList"
begin

section \<open>Strings\<close>

text \<open>
  Python \<open>str\<close> values are modelled as \<^typ>\<open>string\<close>: a list of characters, each read as
  the code point of that number (U+0000 to U+00FF). \<open>len\<close> is \<^const>\<open>length\<close>. The
  character classes below are the ones Python's \<open>re\<close> module (Unicode patterns) and the
  \<open>str\<close> methods use, cut down to that range.
\<close>

definition is_space :: "char \<Rightarrow> bool" where
  \<comment> \<open>\<open>str.isspace\<close> and the regex class \<open>\s\<close>\<close>
  "is_space c = (let n = (of_char c :: nat) in
     (9 \<le> n \<and> n \<le> 13) \<or> (28 \<le> n \<and> n \<le> 32) \<or> n = 133 \<or> n = 160)"

definition is_ascii_word :: "char \<Rightarrow> bool" where
  \<comment> \<open>the regex class \<open>[a-zA-Z0-9_]\<close>\<close>
  "is_ascii_word c = (let n = (of_char c :: nat) in
     (48 \<le> n \<and> n \<le> 57) \<or> (65 \<le> n \<and> n \<le> 90) \<or> n = 95 \<or> (97 \<le> n \<and> n \<le> 122))"

definition is_word :: "char \<Rightarrow> bool" where
  \<comment> \<open>the regex class \<open>\w\<close>: alphanumeric code points and the underscore\<close>
  "is_word c = (let n = (of_char c :: nat) in
     is_ascii_word c \<or> n = 170 \<or> n = 178 \<or> n = 179 \<or> n = 181 \<or> n = 185 \<or> n = 186
     \<or> (188 \<le> n \<and> n \<le> 190) \<or> (192 \<le> n \<and> n \<le> 214) \<or> (216 \<le> n \<and> n \<le> 246)
     \<or> 248 \<le> n)"

definition lower_char :: "char \<Rightarrow> char" where
  "lower_char c = (let n = (of_char c :: nat) in
     if (65 \<le> n \<and> n \<le> 90) \<or> (192 \<le> n \<and> n \<le> 214) \<or> (216 \<le> n \<and> n \<le> 222)
     then char_of (n + 32) else c)"

definition lower :: "string \<Rightarrow> string" where
  \<comment> \<open>\<open>str.lower\<close>\<close>
  "lower s = map lower_char s"

definition upper_char :: "char \<Rightarrow> char" where
  \<comment> \<open>\<open>str.upper\<close> on one character; used on the letters a regex keyword has matched\<close>
  "upper_char c = (let n = (of_char c :: nat) in
     if 97 \<le> n \<and> n \<le> 122 then char_of (n - 32) else c)"

definition upper :: "string \<Rightarrow> string" where
  "upper s = map upper_char s"

definition strip :: "string \<Rightarrow> string" where
  \<comment> \<open>\<open>str.strip()\<close>\<close>
  "strip s = rev (dropWhile is_space (rev (dropWhile is_space s)))"

fun join :: "string \<Rightarrow> string list \<Rightarrow> string" where
  \<comment> \<open>\<open>sep.join(parts)\<close>\<close>
  "join sep [] = []"
| "join sep [x] = x"
| "join sep (x # y # ys) = x @ sep @ join sep (y # ys)"

fun runs_acc :: "(char \<Rightarrow> bool) \<Rightarrow> string \<Rightarrow> string \<Rightarrow> string list" where
  \<comment> \<open>the maximal runs of characters of one class, left to right\<close>
  "runs_acc keep cur [] = (if cur = [] then [] else [cur])"
| "runs_acc keep cur (c # cs) =
     (if keep c then runs_acc keep (cur @ [c]) cs
      else if cur = [] then runs_acc keep [] cs else cur # runs_acc keep [] cs)"

definition split_ws :: "string \<Rightarrow> string list" where
  \<comment> \<open>\<open>str.split()\<close> without arguments: the maximal runs of non-whitespace\<close>
  "split_ws s = runs_acc (\<lambda>c. \<not> is_space c) [] s"

definition text_tokens :: "string \<Rightarrow> string list" where
  \<comment> \<open>\<open>TEXT_TOKEN_RE.findall(s)\<close>, the pattern being \<open>[a-zA-Z0-9_]+\<close>\<close>
  "text_tokens s = runs_acc is_ascii_word [] s"

definition nl :: string where
  \<comment> \<open>the string \<open>"\n"\<close>\<close>
  "nl = [CHR 0x0A]"

definition is_linebreak :: "char \<Rightarrow> bool" where
  \<comment> \<open>the line boundaries of \<open>str.splitlines\<close>\<close>
  "is_linebreak c = (let n = (of_char c :: nat) in
     (10 \<le> n \<and> n \<le> 13) \<or> (28 \<le> n \<and> n \<le> 30) \<or> n = 133)"

fun splitlines_acc :: "string \<Rightarrow> string \<Rightarrow> string list" where
  "splitlines_acc cur [] = (if cur = [] then [] else [cur])"
| "splitlines_acc cur [c] = (if is_linebreak c then [cur] else [cur @ [c]])"
| "splitlines_acc cur (c # d # cs) =
     (if c = CHR 0x0D \<and> d = CHR 0x0A then cur # splitlines_acc [] cs
      else if is_linebreak c then cur # splitlines_acc [] (d # cs)
      else splitlines_acc (cur @ [c]) (d # cs))"

definition splitlines :: "string \<Rightarrow> string list" where
  \<comment> \<open>\<open>str.splitlines()\<close>\<close>
  "splitlines s = splitlines_acc [] s"

definition slice_to :: "int \<Rightarrow> 'a list \<Rightarrow> 'a list" where
  \<comment> \<open>the slice \<open>xs[:n]\<close>; a negative \<open>n\<close> counts from the end\<close>
  "slice_to n xs = (if 0 \<le> n then take (nat n) xs else take (length xs - nat (- n)) xs)"

fun replace_go :: "string \<Rightarrow> string \<Rightarrow> nat \<Rightarrow> string \<Rightarrow> string" where
  \<comment> \<open>\<open>s.replace(old, new)\<close> for a non-empty \<open>old\<close>; the counter is the number of
      characters of a replaced occurrence that are still to be skipped\<close>
  "replace_go old new k [] = []"
| "replace_go old new (Suc k) (c # cs) = replace_go old new k cs"
| "replace_go old new 0 (c # cs) =
     (if prefix old (c # cs) then new @ replace_go old new (length old - 1) cs
      else c # replace_go old new 0 cs)"

definition replace :: "string \<Rightarrow> string \<Rightarrow> string \<Rightarrow> string" where
  "replace old new s = replace_go old new 0 s"

fun contains :: "string \<Rightarrow> string \<Rightarrow> bool" where
  \<comment> \<open>\<open>sub in s\<close>\<close>
  "contains [] sub = (sub = [])"
| "contains (c # cs) sub = (prefix sub (c # cs) \<or> contains cs sub)"

fun digits_of :: "nat \<Rightarrow> string" where
  "digits_of n = (if n < 10 then [char_of (48 + n)]
                  else digits_of (n div 10) @ [char_of (48 + n mod 10)])"

declare digits_of.simps [simp del]

definition str_int :: "int \<Rightarrow> string" where
  \<comment> \<open>\<open>str(n)\<close> of a Python \<open>int\<close>\<close>
  "str_int i = (if i < 0 then CHR ''-'' # digits_of (nat (- i)) else digits_of (nat i))"

section \<open>Configuration\<close>

text \<open>The fields of \<open>SelfQueryLLM\<close> that are fixed by \<open>__init__\<close>.\<close>

record config =
  endpoint :: string
  top_k :: int
  query_candidates :: int
  max_rows :: int
  max_triples :: int
  planner_max_tokens :: int
  schema_graph_uri :: string
  include_full_schema_ttl :: bool
  schema_ttl_max_chars :: int
  allow_describe :: bool
  enable_lexical_search :: bool
  lexical_match_literals :: bool
  lexical_match_labels :: bool
  lexical_match_iri_local_names :: bool
  lexical_match_predicates :: bool
  lexical_max_tokens :: int
  lexical_max_candidates :: int
  max_iterations :: int
  min_iterations_before_early_stop :: int
  min_score_improvement :: real
  global_time_budget_sec :: int
  max_query_chars :: int

section \<open>Query type and validation\<close>

fun match_ci :: "string \<Rightarrow> string \<Rightarrow> string option" where
  \<comment> \<open>a literal of the pattern under \<open>re.IGNORECASE\<close>, matched at the head of the text;
      the result is the text left after it\<close>
  "match_ci [] s = Some s"
| "match_ci (p # ps) [] = None"
| "match_ci (p # ps) (c # cs) = (if lower_char c = lower_char p then match_ci ps cs else None)"

fun word_boundary :: "bool \<Rightarrow> string \<Rightarrow> bool" where
  \<comment> \<open>the regex assertion \<open>\b\<close> between a previous character (a word character or not; the
      start of the text counts as not) and the rest of the text\<close>
  "word_boundary prev_word [] = prev_word"
| "word_boundary prev_word (c # cs) = (prev_word \<noteq> is_word c)"

definition match_keyword :: "string \<Rightarrow> string \<Rightarrow> bool" where
  \<comment> \<open>\<open>KEYWORD\b\<close> at the head of the text\<close>
  "match_keyword kw s = (case match_ci kw s of None \<Rightarrow> False | Some rest \<Rightarrow> word_boundary True rest)"

definition query_type_keywords :: "string list" where
  "query_type_keywords = [''SELECT'', ''ASK'', ''CONSTRUCT'', ''DESCRIBE'']"

definition query_type_of :: "string \<Rightarrow> string" where
  \<comment> \<open>\<open>_query_type\<close>: \<open>QUERY_TYPE_RE.match\<close>, then the group in upper case\<close>
  "query_type_of query =
     (case filter (\<lambda>kw. match_keyword kw (dropWhile is_space query)) query_type_keywords of
        [] \<Rightarrow> ''UNKNOWN''
      | kw # _ \<Rightarrow> upper (take (length kw) (dropWhile is_space query)))"

definition forbidden_keywords :: "string list" where
  "forbidden_keywords = [''INSERT'', ''DELETE'', ''DROP'', ''CLEAR'', ''CREATE'', ''LOAD'',
     ''COPY'', ''MOVE'', ''ADD'', ''SERVICE'', ''WITH'', ''USING'']"

definition match_values_http :: "string \<Rightarrow> bool" where
  \<comment> \<open>\<open>VALUES\s*\{\s*<http\b\<close> at the head of the text\<close>
  "match_values_http s =
     (case match_ci ''VALUES'' s of None \<Rightarrow> False
      | Some r1 \<Rightarrow>
         (case match_ci ''{'' (dropWhile is_space r1) of None \<Rightarrow> False
          | Some r2 \<Rightarrow>
             (case match_ci ''<http'' (dropWhile is_space r2) of None \<Rightarrow> False
              | Some r3 \<Rightarrow> word_boundary True r3)))"

definition forbidden_at :: "string \<Rightarrow> bool" where
  \<comment> \<open>the group of \<open>FORBIDDEN_QUERY_RE\<close> followed by \<open>\b\<close>, at the head of the text\<close>
  "forbidden_at s = ((\<exists>kw \<in> set forbidden_keywords. match_keyword kw s) \<or> match_values_http s)"

fun search_b :: "(string \<Rightarrow> bool) \<Rightarrow> bool \<Rightarrow> string \<Rightarrow> bool" where
  \<comment> \<open>\<open>re.search\<close> for \<open>\b\<close> followed by a pattern that consumes a character: some position
      with a word boundary before it, at which the pattern matches\<close>
  "search_b pat prev_word [] = False"
| "search_b pat prev_word (c # cs) =
     ((word_boundary prev_word (c # cs) \<and> pat (c # cs)) \<or> search_b pat (is_word c) cs)"

definition forbidden_search :: "string \<Rightarrow> bool" where
  \<comment> \<open>\<open>FORBIDDEN_QUERY_RE.search(query)\<close> finds a match\<close>
  "forbidden_search query = search_b forbidden_at False query"

definition allowed_types :: "config \<Rightarrow> string list" where
  \<comment> \<open>\<open>sorted(allowed_types)\<close>\<close>
  "allowed_types cfg =
     (if allow_describe cfg then [''ASK'', ''CONSTRUCT'', ''DESCRIBE'', ''SELECT'']
      else [''ASK'', ''CONSTRUCT'', ''SELECT''])"

definition validate_query :: "config \<Rightarrow> string \<Rightarrow> string option \<Rightarrow> bool \<times> string option" where
  \<comment> \<open>\<open>_validate_query\<close>; the optional argument is \<open>query_type\<close>\<close>
  "validate_query cfg query qt_arg =
     (if int (length query) > max_query_chars cfg
      then (False, Some (''Query exceeds max_query_chars ('' @ str_int (max_query_chars cfg) @ '')''))
      else
        let qt = (case qt_arg of None \<Rightarrow> query_type_of query
                  | Some t \<Rightarrow> if t = [] then query_type_of query else t)
        in if qt \<notin> set (allowed_types cfg)
           then (False, Some (''Only '' @ join '', '' (allowed_types cfg) @ '' are allowed''))
           else if forbidden_search query
           then (False, Some ''Query contains forbidden operation'')
           else if qt \<in> {''SELECT'', ''CONSTRUCT''} \<and> \<not> contains (lower query) ''limit''
           then (False, Some ''Row/graph returning query must include LIMIT'')
           else (True, None))"

section \<open>Values, exceptions and the outside world\<close>

text \<open>
  A decoded JSON value, as \<open>json.loads\<close> and the SPARQL client return it: \<open>None\<close>, a
  \<open>bool\<close>, an \<open>int\<close>, a \<open>float\<close> (an exact real here), a \<open>str\<close>, a \<open>list\<close> or a
  \<open>dict\<close> whose entries are kept in insertion order.
\<close>

datatype json = JNull | JBool bool | JInt int | JFloat real | JStr string
  | JArr "json list" | JObj "(string \<times> json) list"

text \<open>
  The exceptions the engine catches. \<open>Raised\<close> is an exception of a library (the SPARQL
  client, the LLM adapter) with the text \<open>str(error)\<close> gives; the next three are raised by
  the interpreter on a value of the wrong type and carry that value.
\<close>

datatype py_exn =
    Raised string
  | NoAttribute json string
  | NotSliceable json
  | NotFloat json
  | RuntimeError string

datatype llm_outcome = Timeout | Failed string | Content string

text \<open>
  What the engine takes from outside, as parameters: the \<open>json\<close> module, the pieces of the
  interpreter that print or parse floats and containers, the endpoint behind \<open>SPARQLWrapper\<close>
  (asked for JSON or for Turtle, at an endpoint URL, with a query), the LLM adapter's
  \<open>chat_json\<close> under the planner's deadline, the monotonic clock, and the subtraction
  of two floats with the rounding it has. The world \<open>'w\<close> is whatever state these
  depend on.
\<close>

record 'w env =
  json_loads :: "string \<Rightarrow> json option"
  json_dumps :: "json \<Rightarrow> string"
  str_other :: "json \<Rightarrow> string"
  float_of_str :: "string \<Rightarrow> real option"
  exn_text :: "py_exn \<Rightarrow> string"
  query_json :: "'w \<Rightarrow> string \<Rightarrow> string \<Rightarrow> (py_exn + json) \<times> 'w"
  query_turtle :: "'w \<Rightarrow> string \<Rightarrow> string \<Rightarrow> (py_exn + string) \<times> 'w"
  chat_json :: "'w \<Rightarrow> string \<Rightarrow> string \<Rightarrow> int \<Rightarrow> llm_outcome \<times> 'w"
  monotonic :: "'w \<Rightarrow> real"
  float_sub :: "real \<Rightarrow> real \<Rightarrow> real"

text \<open>
  The state threaded through the engine: the world, the requests sent to the endpoint so far
  (endpoint URL and query, oldest first), and the two caches of the instance.
\<close>

record 'w engine =
  world :: 'w
  sent :: "(string \<times> string) list"
  schema_metadata_cache :: "string option"
  schema_ttl_cache :: "string option"

text \<open>The dataclass \<open>QueryEvidence\<close>; the fields carry the prefix \<open>ev_\<close>.\<close>

record query_evidence =
  ev_query :: string
  ev_query_type :: string
  ev_preview :: string
  ev_score :: real
  ev_error :: "string option"

definition str_exn :: "'w env \<Rightarrow> py_exn \<Rightarrow> string" where
  \<comment> \<open>\<open>str(error)\<close>\<close>
  "str_exn env e = (case e of Raised m \<Rightarrow> m | RuntimeError m \<Rightarrow> m | _ \<Rightarrow> exn_text env e)"

fun truthy :: "json \<Rightarrow> bool" where
  "truthy JNull = False"
| "truthy (JBool b) = b"
| "truthy (JInt i) = (i \<noteq> 0)"
| "truthy (JFloat r) = (r \<noteq> 0)"
| "truthy (JStr s) = (s \<noteq> [])"
| "truthy (JArr xs) = (xs \<noteq> [])"
| "truthy (JObj kvs) = (kvs \<noteq> [])"

definition py_str :: "'w env \<Rightarrow> json \<Rightarrow> string" where
  \<comment> \<open>\<open>str(value)\<close>\<close>
  "py_str env v = (case v of JNull \<Rightarrow> ''None'' | JBool b \<Rightarrow> (if b then ''True'' else ''False'')
     | JInt i \<Rightarrow> str_int i | JStr s \<Rightarrow> s | _ \<Rightarrow> str_other env v)"

definition py_float :: "'w env \<Rightarrow> json \<Rightarrow> py_exn + real" where
  \<comment> \<open>\<open>float(value)\<close>\<close>
  "py_float env v = (case v of JInt i \<Rightarrow> Inr (real_of_int i) | JFloat r \<Rightarrow> Inr r
     | JBool b \<Rightarrow> Inr (if b then 1 else 0)
     | JStr s \<Rightarrow> (case float_of_str env s of Some r \<Rightarrow> Inr r | None \<Rightarrow> Inl (NotFloat v))
     | _ \<Rightarrow> Inl (NotFloat v))"

definition has_key :: "(string \<times> json) list \<Rightarrow> string \<Rightarrow> bool" where
  \<comment> \<open>\<open>key in d\<close>\<close>
  "has_key kvs key = (map_of kvs key \<noteq> None)"

definition lookup :: "(string \<times> json) list \<Rightarrow> string \<Rightarrow> json \<Rightarrow> json" where
  \<comment> \<open>\<open>d.get(key, default)\<close> on a \<open>dict\<close>\<close>
  "lookup kvs key dflt = (case map_of kvs key of Some v \<Rightarrow> v | None \<Rightarrow> dflt)"

definition dict_get :: "json \<Rightarrow> string \<Rightarrow> json \<Rightarrow> py_exn + json" where
  \<comment> \<open>\<open>value.get(key, default)\<close> on any value: only a \<open>dict\<close> has the method\<close>
  "dict_get d key dflt = (case d of JObj kvs \<Rightarrow> Inr (lookup kvs key dflt)
     | _ \<Rightarrow> Inl (NoAttribute d ''get''))"

definition json_slice_to :: "json \<Rightarrow> int \<Rightarrow> py_exn + json list" where
  \<comment> \<open>the items of \<open>value[:n]\<close>: a list gives its items, a string its characters\<close>
  "json_slice_to v n = (case v of JArr xs \<Rightarrow> Inr (slice_to n xs)
     | JStr s \<Rightarrow> Inr (map (\<lambda>c. JStr [c]) (slice_to n s))
     | _ \<Rightarrow> Inl (NotSliceable v))"

section \<open>The scorer\<close>

text \<open>
  Scores are Python floats; here they are reals, \<open>0.03\<close> being \<open>3 / 100\<close> and
  \<open>0.2\<close> being \<open>2 / 10\<close>, and the scorer's quotient, product and sum are taken
  without rounding. Infinities and NaN are outside the model. Where the engine compares
  the difference of two floats with a threshold (the improvement of the best score, the
  time elapsed), the difference is the parameter \<open>float_sub\<close> of the outside world, so
  that nothing is assumed of its rounding.
\<close>

definition lexical_hits :: "string list \<Rightarrow> string \<Rightarrow> nat" where
  \<comment> \<open>\<open>len(query_tokens.intersection(set(TEXT_TOKEN_RE.findall(text.lower()))))\<close>\<close>
  "lexical_hits query_tokens text = card (set query_tokens \<inter> set (text_tokens (lower text)))"

fun compact_row :: "string list \<Rightarrow> (string \<times> json) list \<Rightarrow> (string \<times> string) list \<Rightarrow> nat
    \<Rightarrow> py_exn + ((string \<times> string) list \<times> nat)" where
  \<comment> \<open>the inner loop of \<open>_score_json_payload\<close> over \<open>row.items()\<close>\<close>
  "compact_row query_tokens [] compacted hits = Inr (compacted, hits)"
| "compact_row query_tokens ((key, value) # rest) compacted hits =
     (case dict_get value ''value'' (JStr []) of
        Inl e \<Rightarrow> Inl e
      | Inr text \<Rightarrow>
          (case text of
             JStr t \<Rightarrow> compact_row query_tokens rest (AList.update key t compacted)
                         (hits + lexical_hits query_tokens t)
           | _ \<Rightarrow> Inl (NoAttribute text ''lower'')))"

fun score_rows :: "'w env \<Rightarrow> string list \<Rightarrow> json list \<Rightarrow> string list \<Rightarrow> nat
    \<Rightarrow> py_exn + (string list \<times> nat)" where
  \<comment> \<open>the outer loop of \<open>_score_json_payload\<close> over the rows\<close>
  "score_rows env query_tokens [] lines hits = Inr (lines, hits)"
| "score_rows env query_tokens (row # rows) lines hits =
     (case row of
        JObj kvs \<Rightarrow>
          (case compact_row query_tokens kvs [] hits of
             Inl e \<Rightarrow> Inl e
           | Inr (compacted, hits') \<Rightarrow>
               score_rows env query_tokens rows
                 (lines @ [json_dumps env (JObj (map (\<lambda>(k, v). (k, JStr v)) compacted))]) hits')
      | _ \<Rightarrow> Inl (NoAttribute row ''items''))"

definition score_of :: "nat \<Rightarrow> int \<Rightarrow> nat \<Rightarrow> real" where
  \<comment> \<open>\<open>min(1.0, (len(lines) / max(1, cap)) + (lexical_hits * 0.03))\<close>\<close>
  "score_of n cap hits = min 1 (real n / real_of_int (max 1 cap) + real hits * (3 / 100))"

definition score_json_payload :: "'w env \<Rightarrow> config \<Rightarrow> json \<Rightarrow> string \<Rightarrow> py_exn + (string \<times> real)" where
  \<comment> \<open>\<open>_score_json_payload\<close>\<close>
  "score_json_payload env cfg payload user_query =
     (let query_tokens = text_tokens (lower user_query) in
      case payload of
        JObj entries \<Rightarrow>
          (case dict_get (lookup entries ''results'' (JObj [])) ''bindings'' (JArr []) of
             Inl e \<Rightarrow> Inl e
           | Inr bindings \<Rightarrow>
               if \<not> truthy bindings \<and> has_key entries ''boolean''
               then Inr (''ASK result: '' @ py_str env (lookup entries ''boolean'' JNull),
                         if truthy (lookup entries ''boolean'' JNull) then 1 else 2 / 10)
               else
                 (case json_slice_to bindings (max_rows cfg) of
                    Inl e \<Rightarrow> Inl e
                  | Inr rows \<Rightarrow>
                      (case score_rows env query_tokens rows [] 0 of
                         Inl e \<Rightarrow> Inl e
                       | Inr (lines, hits) \<Rightarrow>
                           let preview = (if lines \<noteq> [] then join nl lines else ''No rows returned'');
                               score = score_of (length lines) (max_rows cfg) hits
                           in if has_key entries ''_describe_score''
                              then (case py_float env (lookup entries ''_describe_score'' (JFloat 0)) of
                                      Inl e \<Rightarrow> Inl e
                                    | Inr d \<Rightarrow> Inr (preview, max score d))
                              else Inr (preview, score))))
      | _ \<Rightarrow> Inl (NoAttribute payload ''get''))"

definition score_construct_payload :: "config \<Rightarrow> string \<Rightarrow> string \<Rightarrow> string \<times> real" where
  \<comment> \<open>\<open>_score_construct_payload\<close>\<close>
  "score_construct_payload cfg turtle_payload user_query =
     (let query_tokens = text_tokens (lower user_query);
          lines = slice_to (max_triples cfg)
                    (map strip (filter (\<lambda>line. strip line \<noteq> [] \<and> \<not> prefix ''@prefix'' (strip line))
                                  (splitlines turtle_payload)));
          hits = sum_list (map (lexical_hits query_tokens) lines);
          preview = (if lines \<noteq> [] then join nl lines else ''No triples returned'')
      in (preview, score_of (length lines) (max_triples cfg) hits))"

section \<open>The endpoint driver\<close>

fun unique_acc :: "string list \<Rightarrow> string list \<Rightarrow> string list" where
  \<comment> \<open>the loop of \<open>_build_endpoint_candidates\<close>: first occurrences, in order\<close>
  "unique_acc seen [] = []"
| "unique_acc seen (e # es) =
     (if e \<in> set seen then unique_acc seen es else e # unique_acc (e # seen) es)"

definition build_endpoint_candidates :: "config \<Rightarrow> string list" where
  "build_endpoint_candidates cfg =
     unique_acc []
       (endpoint cfg #
        (if contains (endpoint cfg) ''host.docker.internal''
         then [replace ''host.docker.internal'' ''172.17.0.1'' (endpoint cfg)] else []))"

fun run_with_endpoint_retry ::
    "('w engine \<Rightarrow> string \<Rightarrow> (py_exn + 'a) \<times> 'w engine) \<Rightarrow> string list \<Rightarrow> py_exn list
     \<Rightarrow> 'w engine \<Rightarrow> (py_exn + 'a) \<times> 'w engine" where
  \<comment> \<open>\<open>_run_with_endpoint_retry\<close>: the first endpoint that answers, else the last error\<close>
  "run_with_endpoint_retry run_query [] errors s =
     (if errors \<noteq> [] then (Inl (last errors), s)
      else (Inl (RuntimeError ''No SPARQL endpoint candidates available''), s))"
| "run_with_endpoint_retry run_query (ep # eps) errors s =
     (case run_query s ep of
        (Inr result, s') \<Rightarrow> (Inr result, s')
      | (Inl e, s') \<Rightarrow> run_with_endpoint_retry run_query eps (errors @ [e]) s')"

definition send_json :: "'w env \<Rightarrow> string \<Rightarrow> 'w engine \<Rightarrow> string \<Rightarrow> (py_exn + json) \<times> 'w engine" where
  \<comment> \<open>one request for JSON: \<open>sparql.queryAndConvert()\<close>\<close>
  "send_json env query s ep =
     (case query_json env (world s) ep query of
        (r, w') \<Rightarrow> (r, s\<lparr>world := w', sent := sent s @ [(ep, query)]\<rparr>))"

definition send_turtle :: "'w env \<Rightarrow> string \<Rightarrow> 'w engine \<Rightarrow> string \<Rightarrow> (py_exn + string) \<times> 'w engine" where
  \<comment> \<open>one request for Turtle: \<open>sparql.query().convert()\<close>, decoded to text\<close>
  "send_turtle env query s ep =
     (case query_turtle env (world s) ep query of
        (r, w') \<Rightarrow> (r, s\<lparr>world := w', sent := sent s @ [(ep, query)]\<rparr>))"

definition describe_payload :: "config \<Rightarrow> string \<Rightarrow> json" where
  \<comment> \<open>the JSON-shaped result \<open>_run_raw_json\<close> builds from the Turtle of a DESCRIBE\<close>
  "describe_payload cfg turtle =
     (case score_construct_payload cfg turtle [] of
        (preview, score) \<Rightarrow>
          JObj [(''results'', JObj [(''bindings'',
                   JArr [JObj [(''describe'', JObj [(''type'', JStr ''literal''),
                                                    (''value'', JStr preview)])]])]),
                (''_describe_score'', JFloat score)])"

definition run_raw_json :: "'w env \<Rightarrow> config \<Rightarrow> string \<Rightarrow> 'w engine \<Rightarrow> (py_exn + json) \<times> 'w engine" where
  \<comment> \<open>\<open>_run_raw_json\<close>\<close>
  "run_raw_json env cfg query s =
     run_with_endpoint_retry
       (\<lambda>s ep. if query_type_of query = ''DESCRIBE''
                then (case send_turtle env query s ep of
                        (Inl e, s') \<Rightarrow> (Inl e, s')
                      | (Inr turtle, s') \<Rightarrow> (Inr (describe_payload cfg turtle), s'))
                else send_json env query s ep)
       (build_endpoint_candidates cfg) [] s"

definition run_construct :: "'w env \<Rightarrow> config \<Rightarrow> string \<Rightarrow> 'w engine \<Rightarrow> (py_exn + string) \<times> 'w engine" where
  \<comment> \<open>\<open>_run_construct\<close>\<close>
  "run_construct env cfg query s =
     run_with_endpoint_retry (send_turtle env query) (build_endpoint_candidates cfg) [] s"

section \<open>Executing a batch of candidates\<close>

definition run_candidate :: "'w env \<Rightarrow> config \<Rightarrow> string \<Rightarrow> string \<Rightarrow> string \<Rightarrow> 'w engine
    \<Rightarrow> (py_exn + (string \<times> real)) \<times> 'w engine" where
  \<comment> \<open>the body of the \<open>try\<close> in \<open>execute_sparql_batch\<close>: the preview and score, or the
      exception that was raised\<close>
  "run_candidate env cfg query qt user_query s =
     (if qt \<in> {''SELECT'', ''ASK'', ''DESCRIBE''}
      then (case run_raw_json env cfg query s of
              (Inl e, s') \<Rightarrow> (Inl e, s')
            | (Inr payload, s') \<Rightarrow> (score_json_payload env cfg payload user_query, s'))
      else (case run_construct env cfg query s of
              (Inl e, s') \<Rightarrow> (Inl e, s')
            | (Inr payload, s') \<Rightarrow> (Inr (score_construct_payload cfg payload user_query), s')))"

fun batch_loop :: "'w env \<Rightarrow> config \<Rightarrow> string \<Rightarrow> string list \<Rightarrow> query_evidence list \<Rightarrow> 'w engine
    \<Rightarrow> query_evidence list \<times> 'w engine" where
  \<comment> \<open>the \<open>for\<close> loop of \<open>execute_sparql_batch\<close>, with the list \<open>evidence\<close> built so far\<close>
  "batch_loop env cfg user_query [] evidence s = (evidence, s)"
| "batch_loop env cfg user_query (query # rest) evidence s =
     (let qt = query_type_of query;
          (safe, reason) = validate_query cfg query (Some qt)
      in if \<not> safe
         then batch_loop env cfg user_query rest
                (evidence @ [\<lparr>ev_query = query, ev_query_type = qt, ev_preview = [],
                               ev_score = 0, ev_error = reason\<rparr>]) s
         else
           (case run_candidate env cfg query qt user_query s of
              (Inr (preview, score), s') \<Rightarrow>
                batch_loop env cfg user_query rest
                  (evidence @ [\<lparr>ev_query = query, ev_query_type = qt, ev_preview = preview,
                                 ev_score = score, ev_error = None\<rparr>]) s'
            | (Inl e, s') \<Rightarrow>
                batch_loop env cfg user_query rest
                  (evidence @ [\<lparr>ev_query = query, ev_query_type = qt, ev_preview = [],
                                 ev_score = 0, ev_error = Some (str_exn env e)\<rparr>]) s'))"

definition execute_sparql_batch :: "'w env \<Rightarrow> config \<Rightarrow> string list \<Rightarrow> string \<Rightarrow> 'w engine
    \<Rightarrow> query_evidence list \<times> 'w engine" where
  "execute_sparql_batch env cfg candidates user_query s = batch_loop env cfg user_query candidates [] s"

section \<open>Fallback and lexical candidates\<close>

definition sq :: string where
  \<comment> \<open>the single quote\<close>
  "sq = [CHR 0x27]"

definition dq :: string where
  \<comment> \<open>the double quote\<close>
  "dq = [CHR 0x22]"

definition bs :: string where
  \<comment> \<open>the backslash\<close>
  "bs = [CHR 0x5C]"

definition escape_literal :: "string \<Rightarrow> string" where
  \<comment> \<open>\<open>_escape_literal\<close>: backslashes doubled, then single quotes escaped\<close>
  "escape_literal raw = replace sq (bs @ sq) (replace bs (bs @ bs) raw)"

definition fallback_query :: "config \<Rightarrow> string \<Rightarrow> string" where
  \<comment> \<open>\<open>_fallback_query\<close>\<close>
  "fallback_query cfg user_query =
     (let escaped = escape_literal user_query in
      ''SELECT ?s ?p ?o WHERE { '' @ ''?s ?p ?o . ''
      @ ''FILTER(CONTAINS(LCASE(STR(?s)), LCASE('' @ sq @ escaped @ sq
      @ '')) || CONTAINS(LCASE(STR(?o)), LCASE('' @ sq @ escaped @ sq @ ''))) ''
      @ ''} LIMIT '' @ str_int (max_rows cfg))"

definition is_user_token_char :: "char \<Rightarrow> bool" where
  \<comment> \<open>the class \<open>[a-zA-Z0-9_\-]\<close> of \<open>USER_QUERY_TOKEN_RE\<close>\<close>
  "is_user_token_char c = (is_ascii_word c \<or> c = CHR ''-'')"

fun tokenize_loop :: "int \<Rightarrow> string list \<Rightarrow> string list \<Rightarrow> string list" where
  \<comment> \<open>the loop of \<open>_tokenize_user_query\<close>; the set \<open>seen\<close> holds the tokens kept so far\<close>
  "tokenize_loop cap tokens [] = tokens"
| "tokenize_loop cap tokens (t # ts) =
     (if t \<in> set tokens then tokenize_loop cap tokens ts
      else if cap \<le> int (length (tokens @ [t])) then tokens @ [t]
      else tokenize_loop cap (tokens @ [t]) ts)"

definition tokenize_user_query :: "config \<Rightarrow> string \<Rightarrow> string list" where
  \<comment> \<open>\<open>_tokenize_user_query\<close>: runs of two or more token characters, lower-cased, first
      occurrences, up to \<open>lexical_max_tokens\<close>\<close>
  "tokenize_user_query cfg user_query =
     tokenize_loop (lexical_max_tokens cfg) []
       (filter (\<lambda>t. 2 \<le> length t) (runs_acc is_user_token_char [] (lower user_query)))"

definition token_filters :: "config \<Rightarrow> string \<Rightarrow> string list" where
  \<comment> \<open>the filters \<open>_build_lexical_candidates\<close> adds for one token\<close>
  "token_filters cfg token =
     (let escaped = escape_literal token in
      (if lexical_match_literals cfg
       then [''CONTAINS(LCASE(STR(?o)), LCASE('' @ sq @ escaped @ sq @ ''))''] else [])
      @ (if lexical_match_labels cfg
         then [''CONTAINS(LCASE(STR(?label)), LCASE('' @ sq @ escaped @ sq @ ''))''] else [])
      @ (if lexical_match_iri_local_names cfg
         then [''CONTAINS(LCASE(REPLACE(STR(?s), '' @ sq @ ''^.*[#/]'' @ sq @ '', '' @ sq @ sq
                 @ '')), LCASE('' @ sq @ escaped @ sq @ ''))'',
               ''CONTAINS(LCASE(REPLACE(STR(?o), '' @ sq @ ''^.*[#/]'' @ sq @ '', '' @ sq @ sq
                 @ '')), LCASE('' @ sq @ escaped @ sq @ ''))'']
         else [])
      @ (if lexical_match_predicates cfg
         then [''CONTAINS(LCASE(REPLACE(STR(?p), '' @ sq @ ''^.*[#/]'' @ sq @ '', '' @ sq @ sq
                 @ '')), LCASE('' @ sq @ escaped @ sq @ ''))'']
         else []))"

definition build_lexical_candidates :: "config \<Rightarrow> string \<Rightarrow> string list" where
  \<comment> \<open>\<open>_build_lexical_candidates\<close>\<close>
  "build_lexical_candidates cfg user_query =
     (let tokens = tokenize_user_query cfg user_query in
      if tokens = [] then []
      else
        let filters = concat (map (token_filters cfg) tokens) in
        if filters = [] then []
        else
          let where_clause = join '' || '' filters;
              queries =
                [''SELECT ?s ?p ?o ?label WHERE { '' @ ''?s ?p ?o . ''
                 @ ''OPTIONAL { ?s <http://www.w3.org/2000/01/rdf-schema#label> ?label } ''
                 @ ''OPTIONAL { ?s <http://www.w3.org/2004/02/skos/core#prefLabel> ?label } ''
                 @ ''FILTER('' @ where_clause @ '') '' @ ''} LIMIT '' @ str_int (max_rows cfg),
                 ''SELECT ?s ?label WHERE { '' @ ''?s a ?type . ''
                 @ ''OPTIONAL { ?s <http://www.w3.org/2000/01/rdf-schema#label> ?label } ''
                 @ ''OPTIONAL { ?s <http://www.w3.org/2004/02/skos/core#prefLabel> ?label } ''
                 @ ''FILTER('' @ where_clause @ '') '' @ ''} LIMIT '' @ str_int (max_rows cfg)]
          in slice_to (lexical_max_candidates cfg) queries)"

section \<open>The planner\<close>

definition build_query_prompt :: "config \<Rightarrow> string \<Rightarrow> string \<Rightarrow> string \<Rightarrow> string \<Rightarrow> int \<Rightarrow> string" where
  \<comment> \<open>\<open>build_query_prompt\<close>\<close>
  "build_query_prompt cfg user_query schema_metadata schema_ttl loop_context iteration =
     (''You are a SPARQL planner. Generate read-only SPARQL queries that can help answer the user question.'' @ nl
      @ ''Rules:'' @ nl
      @ ''1. Generate up to '' @ str_int (query_candidates cfg) @ '' queries.'' @ nl
      @ ''2. Query types allowed: '' @ ''SELECT, ASK, CONSTRUCT''
          @ (if allow_describe cfg then '', DESCRIBE'' else []) @ ''.'' @ nl
      @ ''3. Keep every query bounded with LIMIT '' @ str_int (max_rows cfg) @ '' for SELECT and LIMIT ''
          @ str_int (max_triples cfg) @ '' for CONSTRUCT when applicable.'' @ nl
      @ ''4. Output STRICT JSON object with key '' @ sq @ ''queries'' @ sq
          @ '' and value as string array. No markdown.'' @ nl @ nl
      @ ''Iteration: '' @ str_int iteration @ ''.'' @ nl
      @ ''Schema metadata:'' @ nl @ schema_metadata @ nl @ nl
      @ ''User question:'' @ nl @ user_query)
     @ (if iteration < min_iterations_before_early_stop cfg
        then nl @ nl @ ''Planning guidance:'' @ nl
             @ ''- Continue exploration for this round.'' @ nl
             @ ''- Prefer focused follow-up read-only queries that test missing entities/relations.'' @ nl
             @ ''- Only return an empty queries list if no safe useful query can be formed.''
        else [])
     @ (if loop_context \<noteq> []
        then nl @ nl @ ''Previous evidence summary:'' @ nl @ loop_context
             @ nl @ nl @ ''If evidence is already strong, return an empty '' @ sq @ ''queries'' @ sq @ '' list.''
        else [])
     @ (if schema_ttl \<noteq> []
        then nl @ nl @ ''Schema TTL (verbatim):'' @ nl @ schema_ttl
        else [])"

definition fence :: string where
  \<comment> \<open>three backquotes\<close>
  "fence = [CHR 0x60, CHR 0x60, CHR 0x60]"

definition strip_fences :: "string \<Rightarrow> string" where
  \<comment> \<open>the two \<open>re.sub\<close> of \<open>_extract_queries\<close>: a leading fence with an optional \<open>json\<close>,
      then a trailing fence, stripping after each\<close>
  "strip_fences content =
     (if prefix fence content
      then
        let c1 = strip (if prefix ''json'' (drop 3 content) then drop 7 content else drop 3 content);
            c2 = strip (if suffix fence c1 then take (length c1 - 3) c1 else c1)
        in c2
      else content)"

definition fragment_keywords :: "string list" where
  "fragment_keywords = [''SELECT'', ''ASK'', ''CONSTRUCT'']"

definition keyword_then_space :: "string \<Rightarrow> string option" where
  \<comment> \<open>\<open>(?:SELECT|ASK|CONSTRUCT)\s\<close> at the head of the text, case-insensitively: the
      keyword that matches\<close>
  "keyword_then_space s =
     (case filter (\<lambda>kw. case match_ci kw s of Some (c # r) \<Rightarrow> is_space c | _ \<Rightarrow> False)
             fragment_keywords of
        [] \<Rightarrow> None
      | kw # _ \<Rightarrow> Some kw)"

definition fragment_end :: "string \<Rightarrow> bool" where
  \<comment> \<open>the lookahead \<open>(?=(?:\n\s*(?:SELECT|ASK|CONSTRUCT)\s)|\Z)\<close>\<close>
  "fragment_end s =
     (case s of [] \<Rightarrow> True
      | c # cs \<Rightarrow> c = CHR 0x0A \<and> keyword_then_space (dropWhile is_space cs) \<noteq> None)"

fun find_fragments :: "nat \<Rightarrow> string option \<Rightarrow> string \<Rightarrow> string list" where
  \<comment> \<open>\<open>re.findall\<close> of the fragment pattern, scanning left to right. Outside a fragment
      (\<open>None\<close>) a keyword followed by whitespace starts one; the counter is the number of
      characters of the keyword and of the whitespace after it that are still to be taken;
      then the fragment grows until the lookahead holds. A fragment that ends before a
      newline leaves the scan at that newline, which starts no fragment.\<close>
  "find_fragments k None [] = []"
| "find_fragments k (Some cur) [] = [cur]"
| "find_fragments k None (c # cs) =
     (case keyword_then_space (c # cs) of
        None \<Rightarrow> find_fragments 0 None cs
      | Some kw \<Rightarrow>
          find_fragments (length kw + length (takeWhile is_space (drop (length kw) (c # cs))) - 1)
            (Some [c]) cs)"
| "find_fragments (Suc k) (Some cur) (c # cs) = find_fragments k (Some (cur @ [c])) cs"
| "find_fragments 0 (Some cur) (c # cs) =
     (if fragment_end (c # cs) then cur # find_fragments 0 None cs
      else find_fragments 0 (Some (cur @ [c])) cs)"

definition extract_queries :: "'w env \<Rightarrow> string \<Rightarrow> string list" where
  \<comment> \<open>\<open>_extract_queries\<close>\<close>
  "extract_queries env content0 =
     (let content = strip_fences (strip content0);
          from_json =
            (case json_loads env content of
               None \<Rightarrow> None
             | Some payload \<Rightarrow>
                 (case dict_get payload ''queries'' (JArr []) of
                    Inr (JArr items) \<Rightarrow>
                      Some (map strip (filter (\<lambda>item. strip item \<noteq> []) (map (py_str env) items)))
                  | _ \<Rightarrow> None))
      in case from_json of
           Some queries \<Rightarrow> queries
         | None \<Rightarrow> map strip (filter (\<lambda>snippet. strip snippet \<noteq> []) (find_fragments 0 None content)))"

definition generate_sparql_candidates ::
    "'w env \<Rightarrow> config \<Rightarrow> string \<Rightarrow> string \<Rightarrow> string \<Rightarrow> string \<Rightarrow> string \<Rightarrow> int \<Rightarrow> 'w engine
     \<Rightarrow> string list \<times> 'w engine" where
  \<comment> \<open>\<open>generate_sparql_candidates\<close>: the planner call under its deadline, then parsing\<close>
  "generate_sparql_candidates env cfg model_id user_query schema_metadata schema_ttl loop_context
       iteration s =
     (let prompt = build_query_prompt cfg user_query schema_metadata schema_ttl loop_context iteration in
      case chat_json env (world s) model_id prompt (planner_max_tokens cfg) of
        (outcome, w') \<Rightarrow>
          (case outcome of
             Timeout \<Rightarrow> (if iteration = 1 then [fallback_query cfg user_query] else [])
           | Failed m \<Rightarrow> (if iteration = 1 then [fallback_query cfg user_query] else [])
           | Content content \<Rightarrow>
               (let parsed = extract_queries env content in
                if parsed \<noteq> [] then slice_to (query_candidates cfg) parsed
                else if iteration = 1 then [fallback_query cfg user_query] else []),
           s\<lparr>world := w'\<rparr>))"

section \<open>Packing the context\<close>

fun pack_chunks :: "int \<Rightarrow> query_evidence list \<Rightarrow> string list" where
  \<comment> \<open>the loop of \<open>rank_and_pack_context\<close>, the index starting at 1\<close>
  "pack_chunks index [] = []"
| "pack_chunks index (item # items) =
     join nl ([''Evidence #'' @ str_int index, ''QueryType: '' @ ev_query_type item, ''Query:'',
               ev_query item]
              @ (case ev_error item of
                   Some err \<Rightarrow> (if err \<noteq> [] then [''Error: '' @ err]
                                 else [''Top bindings/subgraph:'', ev_preview item])
                 | None \<Rightarrow> [''Top bindings/subgraph:'', ev_preview item]))
     # pack_chunks (index + 1) items"

definition rank_and_pack_context :: "query_evidence list \<Rightarrow> string" where
  "rank_and_pack_context evidence = join (nl @ nl) (pack_chunks 1 evidence)"

definition sorted_by_score :: "query_evidence list \<Rightarrow> query_evidence list" where
  \<comment> \<open>\<open>sorted(evidence, key=lambda item: item.score, reverse=True)\<close>: stable\<close>
  "sorted_by_score evidence = sort_key (\<lambda>item. - ev_score item) evidence"

section \<open>One iteration and the loop\<close>

definition normalize_query :: "string \<Rightarrow> string" where
  \<comment> \<open>\<open>_normalize_query\<close>\<close>
  "normalize_query query = lower (strip (join '' '' (split_ws query)))"

fun merge_new :: "string list \<Rightarrow> string set \<Rightarrow> string list \<Rightarrow> string list \<times> string set" where
  \<comment> \<open>the two \<open>for\<close> loops of \<open>_plan_iteration_candidates\<close> over the candidates, with the
      set \<open>seen_queries\<close> and the list \<open>merged\<close>\<close>
  "merge_new [] seen merged = (merged, seen)"
| "merge_new (query # rest) seen merged =
     (let normalized = normalize_query query in
      if normalized \<in> seen then merge_new rest seen merged
      else merge_new rest (insert normalized seen) (merged @ [query]))"

definition plan_iteration_candidates ::
    "'w env \<Rightarrow> config \<Rightarrow> string \<Rightarrow> string \<Rightarrow> string \<Rightarrow> string \<Rightarrow> query_evidence list \<Rightarrow> string set
     \<Rightarrow> int \<Rightarrow> 'w engine \<Rightarrow> (string list \<times> nat \<times> nat \<times> string set) \<times> 'w engine" where
  \<comment> \<open>\<open>_plan_iteration_candidates\<close>; the set \<open>seen_queries\<close>, updated in place by the
      source, is returned as the fourth component\<close>
  "plan_iteration_candidates env cfg model_id user_query schema_metadata schema_ttl all_evidence
       seen_queries iteration s =
     (let loop_context = rank_and_pack_context (slice_to (top_k cfg) (sorted_by_score all_evidence)) in
      case generate_sparql_candidates env cfg model_id user_query schema_metadata schema_ttl
             (if all_evidence \<noteq> [] then loop_context else []) iteration s of
        (planner_candidates, s') \<Rightarrow>
          (let lexical_candidates =
                 (if enable_lexical_search cfg then build_lexical_candidates cfg user_query else [])
           in case merge_new planner_candidates seen_queries [] of
                (merged1, seen1) \<Rightarrow>
                  (case merge_new lexical_candidates seen1 merged1 of
                     (merged, seen2) \<Rightarrow>
                       ((merged, length planner_candidates, length lexical_candidates, seen2), s'))))"

fun max_score :: "query_evidence list \<Rightarrow> real" where
  \<comment> \<open>\<open>max((item.score for item in all_evidence), default=0.0)\<close>\<close>
  "max_score [] = 0"
| "max_score (item # items) = fold max (map ev_score items) (ev_score item)"

definition evaluate_early_stop :: "'w env \<Rightarrow> config \<Rightarrow> query_evidence list \<Rightarrow> real \<Rightarrow> int
    \<Rightarrow> bool \<times> real" where
  \<comment> \<open>\<open>_evaluate_early_stop\<close>\<close>
  "evaluate_early_stop env cfg all_evidence current_best_score iteration =
     (let next_best_score = max_score all_evidence;
          improvement = float_sub env next_best_score current_best_score;
          can_early_stop = (min_iterations_before_early_stop cfg \<le> iteration)
      in if iteration < max_iterations cfg \<and> can_early_stop \<and> improvement < min_score_improvement cfg
         then (True, next_best_score)
         else (False, next_best_score))"

definition global_budget_reached :: "'w env \<Rightarrow> config \<Rightarrow> real \<Rightarrow> 'w engine \<Rightarrow> bool" where
  \<comment> \<open>\<open>_global_budget_reached\<close>\<close>
  "global_budget_reached env cfg start s =
     (\<not> float_sub env (monotonic env (world s)) start < real_of_int (global_time_budget_sec cfg))"

text \<open>The local variables of \<open>process\<close> that the loop updates.\<close>

record loop_state =
  all_candidates :: "string list"
  all_evidence :: "query_evidence list"
  seen_queries :: "string set"
  best_score :: real
  stop_reason :: string
  iterations_used :: int

definition initial_loop_state :: loop_state where
  "initial_loop_state = \<lparr> all_candidates = [], all_evidence = [], seen_queries = {}, best_score = 0,
     stop_reason = ''max_iterations'', iterations_used = 0 \<rparr>"

fun process_loop ::
    "'w env \<Rightarrow> config \<Rightarrow> string \<Rightarrow> string \<Rightarrow> string \<Rightarrow> string \<Rightarrow> real \<Rightarrow> int list \<Rightarrow> loop_state
     \<Rightarrow> 'w engine \<Rightarrow> loop_state \<times> 'w engine" where
  \<comment> \<open>the \<open>for\<close> loop of \<open>process\<close> over the iterations that are left\<close>
  "process_loop env cfg model_id user_query schema_metadata schema_ttl start [] st s = (st, s)"
| "process_loop env cfg model_id user_query schema_metadata schema_ttl start (iteration # later) st s =
     (let st1 = st\<lparr>iterations_used := iteration\<rparr> in
      if global_budget_reached env cfg start s
      then (st1\<lparr>stop_reason := ''global_time_budget''\<rparr>, s)
      else
        (case plan_iteration_candidates env cfg model_id user_query schema_metadata schema_ttl
                (all_evidence st1) (seen_queries st1) iteration s of
           ((merged, planner_count, lexical_count, seen'), s1) \<Rightarrow>
             (let st2 = st1\<lparr>all_candidates := all_candidates st1 @ merged, seen_queries := seen'\<rparr> in
              if merged = [] then (st2\<lparr>stop_reason := ''no_new_candidates''\<rparr>, s1)
              else
                (case execute_sparql_batch env cfg merged user_query s1 of
                   (evidence, s2) \<Rightarrow>
                     (let st3 = st2\<lparr>all_evidence := all_evidence st2 @ evidence\<rparr> in
                      case evaluate_early_stop env cfg (all_evidence st3) (best_score st3) iteration of
                        (should_stop, best) \<Rightarrow>
                          (let st4 = st3\<lparr>best_score := best\<rparr> in
                           if should_stop
                           then (st4\<lparr>stop_reason := ''no_meaningful_improvement''\<rparr>, s2)
                           else process_loop env cfg model_id user_query schema_metadata schema_ttl
                                  start later st4 s2))))))"

section \<open>The schema context\<close>

fun select_row :: "(string \<times> json) list \<Rightarrow> (string \<times> json) list \<Rightarrow> py_exn + (string \<times> json) list" where
  \<comment> \<open>the inner loop of \<open>_run_select\<close> over \<open>binding.items()\<close>\<close>
  "select_row [] row = Inr row"
| "select_row ((key, value) # rest) row =
     (case dict_get value ''value'' (JStr []) of
        Inl e \<Rightarrow> Inl e
      | Inr v \<Rightarrow> select_row rest (AList.update key v row))"

fun select_rows :: "json list \<Rightarrow> json list \<Rightarrow> py_exn + json list" where
  \<comment> \<open>the outer loop of \<open>_run_select\<close> over the bindings\<close>
  "select_rows [] rows = Inr rows"
| "select_rows (binding # rest) rows =
     (case binding of
        JObj kvs \<Rightarrow>
          (case select_row kvs [] of
             Inl e \<Rightarrow> Inl e
           | Inr row \<Rightarrow> select_rows rest (rows @ [JObj row]))
      | _ \<Rightarrow> Inl (NoAttribute binding ''items''))"

definition run_select :: "'w env \<Rightarrow> config \<Rightarrow> string \<Rightarrow> string \<Rightarrow> 'w engine
    \<Rightarrow> (py_exn + json list) \<times> 'w engine" where
  \<comment> \<open>\<open>_run_select\<close>\<close>
  "run_select env cfg body pre s =
     (case run_raw_json env cfg (pre @ nl @ body) s of
        (Inl e, s') \<Rightarrow> (Inl e, s')
      | (Inr payload, s') \<Rightarrow>
          (case dict_get payload ''results'' (JObj []) of
             Inl e \<Rightarrow> (Inl e, s')
           | Inr results \<Rightarrow>
               (case dict_get results ''bindings'' (JArr []) of
                  Inl e \<Rightarrow> (Inl e, s')
                | Inr bindings \<Rightarrow>
                    (case json_slice_to bindings (max_rows cfg) of
                       Inl e \<Rightarrow> (Inl e, s')
                     | Inr items \<Rightarrow> (select_rows items [], s')))))"

definition classes_body :: string where
  "classes_body = nl @ ''            SELECT ?class (COUNT(?instance) AS ?instanceCount)'' @ nl
     @ ''            WHERE {'' @ nl @ ''                ?class a owl:Class .'' @ nl
     @ ''                OPTIONAL { ?instance a ?class }'' @ nl @ ''            }'' @ nl
     @ ''            GROUP BY ?class'' @ nl @ ''            ORDER BY DESC(?instanceCount)'' @ nl
     @ ''            LIMIT 25'' @ nl @ ''            ''"

definition classes_prefix :: string where
  "classes_prefix = nl @ ''            PREFIX owl: <http://www.w3.org/2002/07/owl#>'' @ nl
     @ ''            ''"

definition properties_body :: string where
  "properties_body = nl @ ''            SELECT ?prop ?domain ?range'' @ nl @ ''            WHERE {'' @ nl
     @ ''                ?prop a rdf:Property .'' @ nl
     @ ''                OPTIONAL { ?prop rdfs:domain ?domain }'' @ nl
     @ ''                OPTIONAL { ?prop rdfs:range ?range }'' @ nl @ ''            }'' @ nl
     @ ''            LIMIT 30'' @ nl @ ''            ''"

definition properties_prefix :: string where
  "properties_prefix = nl @ ''            PREFIX rdf: <http://www.w3.org/1999/02/22-rdf-syntax-ns#>'' @ nl
     @ ''            PREFIX rdfs: <http://www.w3.org/2000/01/rdf-schema#>'' @ nl @ ''            ''"

definition get_schema_metadata :: "'w env \<Rightarrow> config \<Rightarrow> 'w engine \<Rightarrow> (py_exn + string) \<times> 'w engine" where
  \<comment> \<open>\<open>get_schema_metadata\<close>: the cached text, or two SELECTs and a cache write\<close>
  "get_schema_metadata env cfg s =
     (case schema_metadata_cache s of
        Some cached \<Rightarrow> (Inr cached, s)
      | None \<Rightarrow>
          (case run_select env cfg classes_body classes_prefix s of
             (Inl e, s1) \<Rightarrow> (Inl e, s1)
           | (Inr classes, s1) \<Rightarrow>
               (case run_select env cfg properties_body properties_prefix s1 of
                  (Inl e, s2) \<Rightarrow> (Inl e, s2)
                | (Inr properties, s2) \<Rightarrow>
                    (let text = json_dumps env (JObj [(''classes'', JArr classes),
                                                       (''properties'', JArr properties)])
                     in (Inr text, s2\<lparr>schema_metadata_cache := Some text\<rparr>)))))"

definition get_schema_ttl :: "'w env \<Rightarrow> config \<Rightarrow> 'w engine \<Rightarrow> (py_exn + string) \<times> 'w engine" where
  \<comment> \<open>\<open>get_schema_ttl\<close>\<close>
  "get_schema_ttl env cfg s =
     (case schema_ttl_cache s of
        Some cached \<Rightarrow> (Inr cached, s)
      | None \<Rightarrow>
          (let query =
                 (if strip (schema_graph_uri cfg) = [] then ''CONSTRUCT { ?s ?p ?o } WHERE { ?s ?p ?o }''
                  else ''CONSTRUCT { ?s ?p ?o } WHERE { '' @ ''GRAPH <'' @ schema_graph_uri cfg
                       @ ''> { ?s ?p ?o } '' @ ''}'')
           in case run_construct env cfg query s of
                (Inl e, s1) \<Rightarrow> (Inl e, s1)
              | (Inr ttl, s1) \<Rightarrow>
                  (let ttl' = (if 0 < schema_ttl_max_chars cfg \<and> schema_ttl_max_chars cfg < int (length ttl)
                               then slice_to (schema_ttl_max_chars cfg) ttl else ttl)
                   in (Inr ttl', s1\<lparr>schema_ttl_cache := Some ttl'\<rparr>))))"

definition load_schema_context :: "'w env \<Rightarrow> config \<Rightarrow> 'w engine \<Rightarrow> (string \<times> string) \<times> 'w engine" where
  \<comment> \<open>\<open>_load_schema_context\<close>\<close>
  "load_schema_context env cfg s =
     (case get_schema_metadata env cfg s of
        (r, s1) \<Rightarrow>
          (let schema_metadata =
                 (case r of
                    Inr text \<Rightarrow> text
                  | Inl e \<Rightarrow> json_dumps env (JObj [(''classes'', JArr []), (''properties'', JArr []),
                                                    (''warning'', JStr (str_exn env e))]))
           in if include_full_schema_ttl cfg
              then (case get_schema_ttl env cfg s1 of
                      (Inr ttl, s2) \<Rightarrow> ((schema_metadata, ttl), s2)
                    | (Inl e, s2) \<Rightarrow> ((schema_metadata, []), s2))
              else ((schema_metadata, []), s1)))"

section \<open>The entry point\<close>

text \<open>The dictionary \<open>process\<close> returns. Progress events leave it unchanged and are left out.\<close>

record process_result =
  schema_metadata :: string
  queries :: "string list"
  evidence :: "query_evidence list"
  result_context :: string
  result_iterations_used :: int
  result_stop_reason :: string

definition build_process_result :: "config \<Rightarrow> string \<Rightarrow> loop_state \<Rightarrow> process_result" where
  \<comment> \<open>\<open>_build_process_result\<close>\<close>
  "build_process_result cfg metadata st =
     (let best = slice_to (top_k cfg) (sorted_by_score (all_evidence st)) in
      \<lparr> schema_metadata = metadata, queries = all_candidates st, evidence = best,
        result_context = rank_and_pack_context best, result_iterations_used = iterations_used st,
        result_stop_reason = stop_reason st \<rparr>)"

definition run_iterations :: "'w env \<Rightarrow> config \<Rightarrow> string \<Rightarrow> string \<Rightarrow> 'w engine
    \<Rightarrow> (string \<times> loop_state) \<times> 'w engine" where
  \<comment> \<open>\<open>process\<close> up to the end of its loop: the schema metadata and the loop's variables\<close>
  "run_iterations env cfg model_id user_query s =
     (let start = monotonic env (world s) in
      case load_schema_context env cfg s of
        ((metadata, ttl), s1) \<Rightarrow>
          (case process_loop env cfg model_id user_query metadata ttl start
                  [1 .. max_iterations cfg] initial_loop_state s1 of
             (st, s2) \<Rightarrow> ((metadata, st), s2)))"

definition process :: "'w env \<Rightarrow> config \<Rightarrow> string \<Rightarrow> string \<Rightarrow> 'w engine \<Rightarrow> process_result \<times> 'w engine" where
  \<comment> \<open>\<open>process\<close>\<close>
  "process env cfg model_id user_query s =
     (case run_iterations env cfg model_id user_query s of
        ((metadata, st), s') \<Rightarrow> (build_process_result cfg metadata st, s'))"

definition init_config :: "config \<Rightarrow> config" where
  \<comment> \<open>the clamping \<open>__init__\<close> applies to its arguments\<close>
  "init_config args =
     args\<lparr> lexical_max_tokens := max 1 (lexical_max_tokens args),
           lexical_max_candidates := max 1 (lexical_max_candidates args),
           max_iterations := max 1 (max_iterations args),
           min_iterations_before_early_stop :=
             max 1 (min (min_iterations_before_early_stop args) (max 1 (max_iterations args))),
           min_score_improvement := max 0 (min_score_improvement args),
           global_time_budget_sec := max 1 (global_time_budget_sec args),
           max_query_chars := max 256 (max_query_chars args) \<rparr>"

section \<open>The validator's rules, as the specification words them\<close>

definition ci_eq :: "string \<Rightarrow> string \<Rightarrow> bool" where
  \<comment> \<open>equal up to letter case\<close>
  "ci_eq a b = (lower a = lower b)"

definition starts_with_keyword :: "string \<Rightarrow> string \<Rightarrow> bool" where
  \<comment> \<open>the first non-whitespace keyword of \<open>q\<close> is \<open>kw\<close>\<close>
  "starts_with_keyword q kw =
     (\<exists>ws m rest. q = ws @ m @ rest \<and> (\<forall>c \<in> set ws. is_space c) \<and> ci_eq m kw
        \<and> (rest = [] \<or> \<not> is_word (hd rest)))"

definition contains_word :: "string \<Rightarrow> string \<Rightarrow> bool" where
  \<comment> \<open>\<open>q\<close> contains \<open>w\<close>, case-insensitively and word-bounded\<close>
  "contains_word q w =
     (\<exists>pre m post. q = pre @ m @ post \<and> ci_eq m w
        \<and> (pre = [] \<or> \<not> is_word (last pre)) \<and> (post = [] \<or> \<not> is_word (hd post)))"

definition contains_values_http :: "string \<Rightarrow> bool" where
  \<comment> \<open>\<open>q\<close> contains, case-insensitively and word-bounded, \<open>VALUES\<close>, optional whitespace,
      an opening brace, optional whitespace and \<open><http\<close>\<close>
  "contains_values_http q =
     (\<exists>pre v ws1 ws2 h post. q = pre @ v @ ws1 @ ''{'' @ ws2 @ h @ post
        \<and> ci_eq v ''VALUES'' \<and> ci_eq h ''<http''
        \<and> (\<forall>c \<in> set ws1. is_space c) \<and> (\<forall>c \<in> set ws2. is_space c)
        \<and> (pre = [] \<or> \<not> is_word (last pre)) \<and> (post = [] \<or> \<not> is_word (hd post)))"

definition rule_length :: "config \<Rightarrow> string \<Rightarrow> bool" where
  "rule_length cfg q = (int (length q) \<le> max_query_chars cfg)"

definition rule_type :: "config \<Rightarrow> string \<Rightarrow> bool" where
  "rule_type cfg q =
     (\<exists>kw \<in> {''SELECT'', ''ASK'', ''CONSTRUCT''} \<union> (if allow_describe cfg then {''DESCRIBE''} else {}).
        starts_with_keyword q kw)"

definition spec_forbidden_words :: "string list" where
  "spec_forbidden_words = [''INSERT'', ''DELETE'', ''DROP'', ''CLEAR'', ''CREATE'', ''LOAD'',
     ''COPY'', ''MOVE'', ''ADD'', ''SERVICE'', ''WITH'', ''USING'']"

definition stated_forbidden_words :: "string list" where
  "stated_forbidden_words = spec_forbidden_words @ [''VALUES { <http'']"

definition rule_forbidden_stated :: "string \<Rightarrow> bool" where
  \<comment> \<open>rule 3 with the literal fragment \<open>VALUES { <http\<close>\<close>
  "rule_forbidden_stated q = (\<forall>w \<in> set stated_forbidden_words. \<not> contains_word q w)"

definition rule_forbidden :: "string \<Rightarrow> bool" where
  \<comment> \<open>rule 3 with any whitespace, or none, around the brace\<close>
  "rule_forbidden q =
     ((\<forall>w \<in> set spec_forbidden_words. \<not> contains_word q w) \<and> \<not> contains_values_http q)"

definition rule_limit :: "string \<Rightarrow> bool" where
  \<comment> \<open>rule 4: a SELECT or CONSTRUCT query has the token \<open>limit\<close>, in any letter case\<close>
  "rule_limit q =
     (starts_with_keyword q ''SELECT'' \<or> starts_with_keyword q ''CONSTRUCT''
        \<longrightarrow> contains_word q ''limit'')"

definition limit_inside_word_only :: "string \<Rightarrow> bool" where
  \<comment> \<open>a SELECT or CONSTRUCT query without the token \<open>limit\<close> in which the letters
      \<open>limit\<close> occur all the same, inside a longer word such as \<open>?unlimited\<close>\<close>
  "limit_inside_word_only q =
     ((starts_with_keyword q ''SELECT'' \<or> starts_with_keyword q ''CONSTRUCT'')
      \<and> (\<exists>pre post. lower q = pre @ ''limit'' @ post) \<and> \<not> contains_word q ''limit'')"

definition rules_stated :: "config \<Rightarrow> string \<Rightarrow> bool" where
  \<comment> \<open>the four rules with rule 3 as it is worded\<close>
  "rules_stated cfg q =
     (rule_length cfg q \<and> rule_type cfg q \<and> rule_forbidden_stated q \<and> rule_limit q)"

definition rules_hold :: "config \<Rightarrow> string \<Rightarrow> bool" where
  \<comment> \<open>the four rules with rule 3 as the pattern has it\<close>
  "rules_hold cfg q = (rule_length cfg q \<and> rule_type cfg q \<and> rule_forbidden q \<and> rule_limit q)"

section \<open>The escaped question, as the specification words it\<close>


section \<open>A concrete engine configuration\<close>

definition example_config :: config where
  "example_config = \<lparr> endpoint = ''http://host.docker.internal:7200/x'', top_k = 3,
     query_candidates = 3, max_rows = 10, max_triples = 20, planner_max_tokens = 512,
     schema_graph_uri = '''', include_full_schema_ttl = False, schema_ttl_max_chars = - 1,
     allow_describe = False, enable_lexical_search = False, lexical_match_literals = True,
     lexical_match_labels = True, lexical_match_iri_local_names = True,
     lexical_match_predicates = False, lexical_max_tokens = 4, lexical_max_candidates = 2,
     max_iterations = 3, min_iterations_before_early_stop = 1, min_score_improvement = 0,
     global_time_budget_sec = 60, max_query_chars = 256 \<rparr>"

section \<open>Evidence for a rejected candidate\<close>

definition accepted :: "config \<Rightarrow> string \<Rightarrow> bool" where
  \<comment> \<open>the validator's verdict as \<open>execute_sparql_batch\<close> asks for it\<close>
  "accepted cfg q = fst (validate_query cfg q (Some (query_type_of q)))"

definition rejected_evidence :: "config \<Rightarrow> string \<Rightarrow> query_evidence" where
  \<comment> \<open>the record of a candidate the validator turns down: its reason, no preview, score 0\<close>
  "rejected_evidence cfg q =
     \<lparr>ev_query = q, ev_query_type = query_type_of q, ev_preview = [], ev_score = 0,
      ev_error = snd (validate_query cfg q (Some (query_type_of q)))\<rparr>"

section \<open>A concrete outside world\<close>

text \<open>
  The world is the number of requests the endpoint has seen. The first two requests for JSON
  are refused, later ones get the answer of an ASK; a request for Turtle gets one triple; the
  planner times out.
\<close>

fun example_dumps :: "json \<Rightarrow> string" where
  \<comment> \<open>\<open>json.dumps\<close> for the values met below: integers, and strings and keys that need
      no escaping\<close>
  "example_dumps JNull = ''null''"
| "example_dumps (JBool b) = (if b then ''true'' else ''false'')"
| "example_dumps (JInt i) = str_int i"
| "example_dumps (JFloat r) = str_int \<lfloor>r\<rfloor> @ ''.0''"
| "example_dumps (JStr s) = [CHR 0x22] @ s @ [CHR 0x22]"
| "example_dumps (JArr xs) = ''['' @ join '', '' (map example_dumps xs) @ '']''"
| "example_dumps (JObj kvs) =
     ''{'' @ join '', '' (map (\<lambda>kv. [CHR 0x22] @ fst kv @ [CHR 0x22] @ '': '' @ example_dumps (snd kv)) kvs)
       @ ''}''"

definition example_env :: "nat env" where
  "example_env = \<lparr> json_loads = (\<lambda>s. None), json_dumps = example_dumps, str_other = (\<lambda>v. ''?''),
     float_of_str = (\<lambda>s. None), exn_text = (\<lambda>e. ''error''),
     query_json = (\<lambda>w ep q. (if w < 2 then Inl (Raised ''connection refused'')
                              else Inr (JObj [(''boolean'', JBool True)]), Suc w)),
     query_turtle = (\<lambda>w ep q. (Inr ''<a> <b> <c> .'', Suc w)),
     chat_json = (\<lambda>w model prompt n. (Timeout, w)),
     monotonic = (\<lambda>w. real w), float_sub = (\<lambda>a b. a - b) \<rparr>"

definition example_engine :: "nat engine" where
  "example_engine = \<lparr> world = 0, sent = [], schema_metadata_cache = None, schema_ttl_cache = None \<rparr>"

section \<open>Payloads whose DESCRIBE score is a score\<close>

definition describe_score_ok :: "'w env \<Rightarrow> json \<Rightarrow> bool" where
  \<comment> \<open>a \<open>_describe_score\<close> field of the payload, when it is there and \<open>float\<close> accepts it,
      holds a number between 0 and 1\<close>
  "describe_score_ok env payload =
     (case payload of
        JObj entries \<Rightarrow>
          (case py_float env (lookup entries ''_describe_score'' (JFloat 0)) of
             Inr d \<Rightarrow> has_key entries ''_describe_score'' \<longrightarrow> 0 \<le> d \<and> d \<le> 1
           | Inl e \<Rightarrow> True)
      | _ \<Rightarrow> True)"


section \<open>What the loop keeps true\<close>

definition loop_inv :: "loop_state \<Rightarrow> bool" where
  \<comment> \<open>every candidate so far is in the seen-set in normal form, no two of them share a
      normal form, and the evidence lists them in order\<close>
  "loop_inv st = (normalize_query ` set (all_candidates st) \<subseteq> seen_queries st
     \<and> distinct (map normalize_query (all_candidates st))
     \<and> map ev_query (all_evidence st) = all_candidates st)"

definition hurried_config :: config where
  \<comment> \<open>the concrete configuration with a time budget of one second\<close>
  "hurried_config = example_config\<lparr>global_time_budget_sec := 1\<rparr>"

definition warmed_engine :: "nat engine" where
  \<comment> \<open>a fresh engine in a world where the endpoint already answers\<close>
  "warmed_engine = example_engine\<lparr>world := 2\<rparr>"

section \<open>Characters and matching\<close>

lemma is_word_lower_char: "is_word (lower_char c) = is_word c"
  by (auto simp: is_word_def is_ascii_word_def lower_char_def Let_def)

lemma is_space_lower_char: "is_space (lower_char c) = is_space c"
  by (auto simp: is_space_def lower_char_def Let_def)

lemma lower_char_space: "is_space c \<Longrightarrow> lower_char c = c"
  by (auto simp: is_space_def lower_char_def Let_def)

lemma word_not_space: "is_word c \<Longrightarrow> \<not> is_space c"
  by (auto simp: is_space_def is_word_def is_ascii_word_def Let_def)

lemma upper_of_match:
  assumes "lower_char c = lower_char p" "65 \<le> (of_char p :: nat)" "(of_char p :: nat) \<le> 90"
  shows "upper_char c = p"
proof -
  have lp: "lower_char p = char_of (of_char p + 32 :: nat)" using assms by (simp add: lower_char_def)
  show ?thesis
  proof (cases "lower_char c = c")
    case True
    then have "c = char_of (of_char p + 32 :: nat)" using assms lp by simp
    then have "(of_char c :: nat) = of_char p + 32" using assms by simp
    then show ?thesis using assms by (simp add: upper_char_def)
  next
    case False
    then have "lower_char c = char_of (of_char c + 32 :: nat)"
      by (auto simp: lower_char_def Let_def split: if_splits)
    then have "char_of (of_char c + 32 :: nat) = char_of (of_char p + 32 :: nat)"
      using assms lp by simp
    then have "(of_char c + 32 :: nat) mod 256 = (of_char p + 32) mod 256" by simp
    moreover have "(of_char c :: nat) \<le> 222"
      using False by (auto simp: lower_char_def Let_def split: if_splits)
    ultimately have "(of_char c :: nat) = of_char p" using assms by simp
    then have "c = p" by simp
    then show ?thesis using assms by (simp add: upper_char_def)
  qed
qed

lemma upper_of_lower_eq:
  "lower m = lower kw \<Longrightarrow> \<forall>p \<in> set kw. 65 \<le> (of_char p :: nat) \<and> (of_char p :: nat) \<le> 90 \<Longrightarrow> upper m = kw"
proof (induction m arbitrary: kw)
  case Nil
  then show ?case by (simp add: lower_def upper_def)
next
  case (Cons c m)
  then obtain p kw' where kw: "kw = p # kw'" by (cases kw) (auto simp: lower_def)
  with Cons.prems have "lower_char c = lower_char p" "lower m = lower kw'" by (auto simp: lower_def)
  moreover have "upper m = kw'" using Cons.IH [of kw'] Cons.prems kw \<open>lower m = lower kw'\<close> by simp
  ultimately show ?case using upper_of_match [of c p] Cons.prems kw by (simp add: upper_def)
qed

lemma lower_eq_length: "lower m = lower kw \<Longrightarrow> length m = length kw"
  unfolding lower_def by (rule map_eq_imp_length_eq)

lemma match_ci_Some_iff:
  "match_ci p s = Some r \<longleftrightarrow> (\<exists>m. s = m @ r \<and> lower m = lower p)"
proof (induction p s rule: match_ci.induct)
  case (1 s)
  then show ?case by (auto simp: lower_def)
next
  case (2 p ps)
  then show ?case by (auto simp: lower_def)
next
  case (3 p ps c cs)
  show ?case
  proof
    assume "match_ci (p # ps) (c # cs) = Some r"
    then have h: "lower_char c = lower_char p" "match_ci ps cs = Some r" by (auto split: if_splits)
    then obtain m where "cs = m @ r" "lower m = lower ps" using 3 by auto
    then have "c # cs = (c # m) @ r \<and> lower (c # m) = lower (p # ps)" using h by (simp add: lower_def)
    then show "\<exists>m. c # cs = m @ r \<and> lower m = lower (p # ps)" by blast
  next
    assume "\<exists>m. c # cs = m @ r \<and> lower m = lower (p # ps)"
    then obtain m where m: "c # cs = m @ r" "lower m = lower (p # ps)" by blast
    then obtain m' where m': "m = c # m'" by (cases m) (auto simp: lower_def)
    with m have "lower_char c = lower_char p" "cs = m' @ r" "lower m' = lower ps" by (auto simp: lower_def)
    then show "match_ci (p # ps) (c # cs) = Some r" using 3 by auto
  qed
qed

lemma word_boundary_True: "word_boundary True rest \<longleftrightarrow> (rest = [] \<or> \<not> is_word (hd rest))"
  by (cases rest) auto

lemma match_keyword_iff:
  "match_keyword kw s \<longleftrightarrow> (\<exists>m rest. s = m @ rest \<and> ci_eq m kw \<and> (rest = [] \<or> \<not> is_word (hd rest)))"
proof
  assume "match_keyword kw s"
  then obtain rest where "match_ci kw s = Some rest" "word_boundary True rest"
    by (auto simp: match_keyword_def split: option.splits)
  then show "\<exists>m rest. s = m @ rest \<and> ci_eq m kw \<and> (rest = [] \<or> \<not> is_word (hd rest))"
    by (auto simp: match_ci_Some_iff word_boundary_True ci_eq_def)
next
  assume "\<exists>m rest. s = m @ rest \<and> ci_eq m kw \<and> (rest = [] \<or> \<not> is_word (hd rest))"
  then obtain m rest where h: "s = m @ rest" "ci_eq m kw" "rest = [] \<or> \<not> is_word (hd rest)" by blast
  then have "match_ci kw s = Some rest" by (auto simp: match_ci_Some_iff ci_eq_def)
  then show "match_keyword kw s" using h by (simp add: match_keyword_def word_boundary_True)
qed

lemma ci_eq_hd_word:
  assumes "ci_eq m w" "w \<noteq> []" "is_word (hd w)"
  shows "m \<noteq> [] \<and> is_word (hd m)"
proof -
  obtain p w' where w: "w = p # w'" using assms by (cases w) auto
  then obtain c m' where m: "m = c # m'" using assms by (cases m) (auto simp: ci_eq_def lower_def)
  then have "lower_char c = lower_char p" using assms w by (simp add: ci_eq_def lower_def)
  then have "is_word c = is_word p" by (metis is_word_lower_char)
  then show ?thesis using assms w m by simp
qed

lemma search_b_iff:
  "search_b pat pw s \<longleftrightarrow>
     (\<exists>pre post. s = pre @ post \<and> post \<noteq> []
        \<and> word_boundary (if pre = [] then pw else is_word (last pre)) post \<and> pat post)"
proof (induction s arbitrary: pw)
  case Nil
  then show ?case by simp
next
  case (Cons c cs)
  show ?case
  proof
    assume "search_b pat pw (c # cs)"
    then consider "word_boundary pw (c # cs) \<and> pat (c # cs)" | "search_b pat (is_word c) cs"
      by auto
    then show "\<exists>pre post. c # cs = pre @ post \<and> post \<noteq> []
        \<and> word_boundary (if pre = [] then pw else is_word (last pre)) post \<and> pat post"
    proof cases
      case 1
      then have "c # cs = [] @ (c # cs) \<and> (c # cs) \<noteq> []
          \<and> word_boundary (if [] = ([]::string) then pw else is_word (last [])) (c # cs)
          \<and> pat (c # cs)"
        by simp
      then show ?thesis by blast
    next
      case 2
      then obtain pre post where pp: "cs = pre @ post" "post \<noteq> []"
         "word_boundary (if pre = [] then is_word c else is_word (last pre)) post" "pat post"
        using Cons.IH by blast
      then have "c # cs = (c # pre) @ post \<and> post \<noteq> [] \<and>
         word_boundary (if c # pre = [] then pw else is_word (last (c # pre))) post \<and> pat post"
        by auto
      then show ?thesis by blast
    qed
  next
    assume "\<exists>pre post. c # cs = pre @ post \<and> post \<noteq> []
        \<and> word_boundary (if pre = [] then pw else is_word (last pre)) post \<and> pat post"
    then obtain pre post where pp: "c # cs = pre @ post" "post \<noteq> []"
        "word_boundary (if pre = [] then pw else is_word (last pre)) post" "pat post" by blast
    show "search_b pat pw (c # cs)"
    proof (cases pre)
      case Nil
      then show ?thesis using pp by auto
    next
      case (Cons a pre')
      then have "cs = pre' @ post" "a = c" using pp by auto
      moreover have "word_boundary (if pre' = [] then is_word c else is_word (last pre')) post"
        using pp Cons \<open>a = c\<close> by (auto split: if_splits)
      ultimately have "search_b pat (is_word c) cs" using Cons.IH pp by blast
      then show ?thesis by simp
    qed
  qed
qed

lemma contains_word_search:
  assumes "w \<noteq> []" "is_word (hd w)"
  shows "contains_word q w \<longleftrightarrow> search_b (match_keyword w) False q"
proof
  assume "contains_word q w"
  then obtain pre m post where h: "q = pre @ m @ post" "ci_eq m w"
     "pre = [] \<or> \<not> is_word (last pre)" "post = [] \<or> \<not> is_word (hd post)"
    by (auto simp: contains_word_def)
  have m: "m \<noteq> []" "is_word (hd m)" using ci_eq_hd_word [OF h(2) assms] by auto
  then obtain c m' where cm: "m = c # m'" "is_word c" by (cases m) auto
  have "match_keyword w (m @ post)" using h by (auto simp: match_keyword_iff)
  moreover have "word_boundary (if pre = [] then False else is_word (last pre)) (m @ post)"
    using h cm by auto
  ultimately show "search_b (match_keyword w) False q"
    unfolding search_b_iff using h(1) m(1) by (intro exI [of _ pre] exI [of _ "m @ post"]) simp
next
  assume "search_b (match_keyword w) False q"
  then obtain pre post where h: "q = pre @ post" "post \<noteq> []"
     "word_boundary (if pre = [] then False else is_word (last pre)) post" "match_keyword w post"
    unfolding search_b_iff by blast
  then obtain m rest where mr: "post = m @ rest" "ci_eq m w" "rest = [] \<or> \<not> is_word (hd rest)"
    by (auto simp: match_keyword_iff)
  have m: "m \<noteq> []" "is_word (hd m)" using ci_eq_hd_word [OF mr(2) assms] by auto
  then obtain c m' where cm: "m = c # m'" "is_word c" by (cases m) auto
  have "pre = [] \<or> \<not> is_word (last pre)" using h(3) mr(1) cm by (auto split: if_splits)
  then show "contains_word q w"
    unfolding contains_word_def using h(1) mr by (intro exI [of _ pre] exI [of _ m] exI [of _ rest]) simp
qed

lemma contains_iff: "contains s sub \<longleftrightarrow> (\<exists>pre post. s = pre @ sub @ post)"
proof (induction s)
  case Nil
  then show ?case by auto
next
  case (Cons c cs)
  show ?case
  proof
    assume "contains (c # cs) sub"
    then consider "prefix sub (c # cs)" | "contains cs sub" by auto
    then show "\<exists>pre post. c # cs = pre @ sub @ post"
    proof cases
      case 1
      then obtain post where "c # cs = [] @ sub @ post" by (auto simp: prefix_def)
      then show ?thesis by blast
    next
      case 2
      then obtain pre post where "cs = pre @ sub @ post" using Cons.IH by blast
      then have "c # cs = (c # pre) @ sub @ post" by simp
      then show ?thesis by blast
    qed
  next
    assume "\<exists>pre post. c # cs = pre @ sub @ post"
    then obtain pre post where h: "c # cs = pre @ sub @ post" by blast
    show "contains (c # cs) sub"
    proof (cases pre)
      case Nil
      then have "prefix sub (c # cs)" using h by (simp add: prefix_def)
      then show ?thesis by simp
    next
      case (Cons a pre')
      then have "cs = pre' @ sub @ post" using h by simp
      then have "contains cs sub" using Cons.IH by blast
      then show ?thesis by simp
    qed
  qed
qed

section \<open>The query type\<close>

lemma keyword_letters:
  "kw \<in> set query_type_keywords \<Longrightarrow> \<forall>p \<in> set kw. 65 \<le> (of_char p :: nat) \<and> (of_char p :: nat) \<le> 90"
  by (auto simp: query_type_keywords_def)

lemma keyword_cases:
  "k \<in> set query_type_keywords \<Longrightarrow> k = ''SELECT'' \<or> k = ''ASK'' \<or> k = ''CONSTRUCT'' \<or> k = ''DESCRIBE''"
  by (simp add: query_type_keywords_def)

lemma keyword_hd_eq:
  assumes "k1 \<in> set query_type_keywords" "k2 \<in> set query_type_keywords" "hd k1 = hd k2"
  shows "k1 = k2"
  using keyword_cases [OF assms(1)] keyword_cases [OF assms(2)] assms(3)
  by (elim disjE) simp_all

lemma keyword_prefix_eq:
  assumes "k1 \<in> set query_type_keywords" "k2 \<in> set query_type_keywords" "prefix k1 k2"
  shows "k1 = k2"
proof -
  have "k1 \<noteq> []" using keyword_cases [OF assms(1)] by auto
  then have "hd k1 = hd k2" using assms(3) by (auto simp: prefix_def)
  then show ?thesis using keyword_hd_eq assms by blast
qed

lemma match_keyword_upper_take:
  assumes "match_keyword kw r" "kw \<in> set query_type_keywords"
  shows "upper (take (length kw) r) = kw"
proof -
  obtain m rest where h: "r = m @ rest" "ci_eq m kw" using assms by (auto simp: match_keyword_iff)
  then have "length m = length kw" using lower_eq_length [of m kw] by (simp add: ci_eq_def)
  then have "take (length kw) r = m" using h by simp
  then show ?thesis using upper_of_lower_eq [of m kw] h keyword_letters [OF assms(2)]
    by (simp add: ci_eq_def)
qed

lemma match_keyword_exclusive:
  assumes "match_keyword k1 r" "match_keyword k2 r"
    "k1 \<in> set query_type_keywords" "k2 \<in> set query_type_keywords"
  shows "k1 = k2"
proof -
  have u: "upper (take (length k1) r) = k1" "upper (take (length k2) r) = k2"
    using assms by (auto intro: match_keyword_upper_take)
  have p: "length k1 \<le> length k2 \<Longrightarrow> prefix k1 k2"
  proof -
    assume le: "length k1 \<le> length k2"
    have "take (length k1) k2 = upper (take (length k1) (take (length k2) r))"
      using u(2) by (metis upper_def take_map)
    also have "\<dots> = k1" using le u(1) by (simp add: min_absorb1)
    finally show "prefix k1 k2" by (metis take_is_prefix)
  qed
  have q: "length k2 \<le> length k1 \<Longrightarrow> prefix k2 k1"
  proof -
    assume le: "length k2 \<le> length k1"
    have "take (length k2) k1 = upper (take (length k2) (take (length k1) r))"
      using u(1) by (metis upper_def take_map)
    also have "\<dots> = k2" using le u(2) by (simp add: min_absorb1)
    finally show "prefix k2 k1" by (metis take_is_prefix)
  qed
  show ?thesis
  proof (cases "length k1 \<le> length k2")
    case True
    then show ?thesis using p keyword_prefix_eq assms by blast
  next
    case False
    then have "prefix k2 k1" using q by simp
    then show ?thesis using keyword_prefix_eq assms by blast
  qed
qed

lemma query_type_of_iff:
  assumes "kw \<in> set query_type_keywords"
  shows "query_type_of q = kw \<longleftrightarrow> match_keyword kw (dropWhile is_space q)"
proof
  assume eq: "query_type_of q = kw"
  let ?f = "filter (\<lambda>kw. match_keyword kw (dropWhile is_space q)) query_type_keywords"
  show "match_keyword kw (dropWhile is_space q)"
  proof (cases ?f)
    case Nil
    then have "query_type_of q = ''UNKNOWN''" by (simp add: query_type_of_def)
    then show ?thesis using eq assms by (auto simp: query_type_keywords_def)
  next
    case (Cons k ks)
    then have "k \<in> set ?f" by simp
    then have k: "k \<in> set query_type_keywords" "match_keyword k (dropWhile is_space q)" by auto
    have "query_type_of q = upper (take (length k) (dropWhile is_space q))"
      using Cons by (simp add: query_type_of_def)
    then have "query_type_of q = k" using match_keyword_upper_take k by simp
    then show ?thesis using eq k by simp
  qed
next
  assume m: "match_keyword kw (dropWhile is_space q)"
  let ?f = "filter (\<lambda>kw. match_keyword kw (dropWhile is_space q)) query_type_keywords"
  have "kw \<in> set ?f" using m assms by simp
  then obtain k ks where Cons: "?f = k # ks" by (cases ?f) auto
  then have "k \<in> set ?f" by simp
  then have k: "k \<in> set query_type_keywords" "match_keyword k (dropWhile is_space q)" by auto
  then have "k = kw" using match_keyword_exclusive m assms by blast
  moreover have "query_type_of q = upper (take (length k) (dropWhile is_space q))"
    using Cons by (simp add: query_type_of_def)
  ultimately show "query_type_of q = kw" using match_keyword_upper_take k by simp
qed

lemma keyword_hd_word: "kw \<in> set query_type_keywords \<Longrightarrow> kw \<noteq> [] \<and> is_word (hd kw)"
  by (auto simp: query_type_keywords_def is_word_def is_ascii_word_def)

lemma starts_with_keyword_iff:
  assumes "kw \<in> set query_type_keywords"
  shows "starts_with_keyword q kw \<longleftrightarrow> match_keyword kw (dropWhile is_space q)"
proof
  assume "starts_with_keyword q kw"
  then obtain ws m rest where h: "q = ws @ m @ rest" "\<forall>c \<in> set ws. is_space c" "ci_eq m kw"
      "rest = [] \<or> \<not> is_word (hd rest)"
    by (auto simp: starts_with_keyword_def)
  have "m \<noteq> [] \<and> is_word (hd m)" using ci_eq_hd_word [OF h(3)] keyword_hd_word [OF assms] by simp
  then obtain c m' where cm: "m = c # m'" "\<not> is_space c" by (cases m) (auto dest: word_not_space)
  have "dropWhile is_space q = m @ rest" using h(1,2) cm by (simp add: dropWhile_append2)
  then show "match_keyword kw (dropWhile is_space q)" using h by (auto simp: match_keyword_iff)
next
  assume "match_keyword kw (dropWhile is_space q)"
  then obtain m rest where h: "dropWhile is_space q = m @ rest" "ci_eq m kw"
      "rest = [] \<or> \<not> is_word (hd rest)"
    by (auto simp: match_keyword_iff)
  have "q = takeWhile is_space q @ m @ rest" using h(1) by (metis takeWhile_dropWhile_id)
  moreover have "\<forall>c \<in> set (takeWhile is_space q). is_space c" by (auto dest: set_takeWhileD)
  ultimately show "starts_with_keyword q kw" unfolding starts_with_keyword_def using h(2,3) by blast
qed

lemma query_type_of_starts:
  "kw \<in> set query_type_keywords \<Longrightarrow> query_type_of q = kw \<longleftrightarrow> starts_with_keyword q kw"
  by (simp add: query_type_of_iff starts_with_keyword_iff)

section \<open>The forbidden-operation pattern\<close>

lemma lower_char_eq_nonletter:
  assumes "lower_char c = p" "\<not> (97 \<le> (of_char p :: nat) \<and> (of_char p :: nat) \<le> 122)" "(of_char p :: nat) < 128"
  shows "c = p"
proof (cases "lower_char c = c")
  case True
  then show ?thesis using assms by simp
next
  case False
  then have "lower_char c = char_of (of_char c + 32 :: nat)"
      and r: "(65 \<le> (of_char c :: nat) \<and> (of_char c :: nat) \<le> 90) \<or> (192 \<le> (of_char c :: nat) \<and> (of_char c :: nat) \<le> 214)
         \<or> (216 \<le> (of_char c :: nat) \<and> (of_char c :: nat) \<le> 222)"
    by (auto simp: lower_char_def Let_def split: if_splits)
  then have "(of_char p :: nat) = (of_char c + 32) mod 256" using assms(1) by auto
  then have "(of_char p :: nat) = of_char c + 32" using r by auto
  then show ?thesis using r assms by auto
qed

lemma match_brace: "match_ci ''{'' s = Some r \<longleftrightarrow> s = CHR ''{'' # r"
proof (cases s)
  case Nil
  then show ?thesis by simp
next
  case (Cons c cs)
  have "lower_char c = CHR ''{'' \<longleftrightarrow> c = CHR ''{''"
    using lower_char_eq_nonletter [of c "CHR ''{''"] by (auto simp: lower_char_def)
  then show ?thesis using Cons by (auto simp: lower_char_def)
qed

lemma dropWhile_spaces_eq:
  "dropWhile is_space s = t \<longleftrightarrow> (\<exists>ws. s = ws @ t \<and> (\<forall>c \<in> set ws. is_space c) \<and> (t = [] \<or> \<not> is_space (hd t)))"
proof
  assume h: "dropWhile is_space s = t"
  have "s = takeWhile is_space s @ t" using h by (metis takeWhile_dropWhile_id)
  moreover have "\<forall>c \<in> set (takeWhile is_space s). is_space c" by (auto dest: set_takeWhileD)
  moreover have "t = [] \<or> \<not> is_space (hd t)" using h by (metis hd_dropWhile)
  ultimately show "\<exists>ws. s = ws @ t \<and> (\<forall>c \<in> set ws. is_space c) \<and> (t = [] \<or> \<not> is_space (hd t))"
    by blast
next
  assume "\<exists>ws. s = ws @ t \<and> (\<forall>c \<in> set ws. is_space c) \<and> (t = [] \<or> \<not> is_space (hd t))"
  then obtain ws where h: "s = ws @ t" "\<forall>c \<in> set ws. is_space c" "t = [] \<or> \<not> is_space (hd t)" by blast
  have "dropWhile is_space s = dropWhile is_space t" using h(1,2) by (simp add: dropWhile_append2)
  also have "\<dots> = t" using h(3) by (cases t) auto
  finally show "dropWhile is_space s = t" .
qed

lemma not_space_brace: "\<not> is_space CHR ''{''"
  by (simp add: is_space_def)

lemma ci_http_hd: "ci_eq h ''<http'' \<Longrightarrow> h \<noteq> [] \<and> \<not> is_space (hd h)"
proof -
  assume a: "ci_eq h ''<http''"
  then obtain c h' where h: "h = c # h'" by (cases h) (auto simp: ci_eq_def lower_def)
  then have "lower_char c = lower_char CHR ''<''" using a by (simp add: ci_eq_def lower_def)
  then have "is_space c = is_space CHR ''<''" by (metis is_space_lower_char)
  then show ?thesis using h by (simp add: is_space_def)
qed

lemma match_values_http_iff:
  "match_values_http s \<longleftrightarrow>
     (\<exists>v ws1 ws2 h post. s = v @ ws1 @ ''{'' @ ws2 @ h @ post
        \<and> ci_eq v ''VALUES'' \<and> ci_eq h ''<http''
        \<and> (\<forall>c \<in> set ws1. is_space c) \<and> (\<forall>c \<in> set ws2. is_space c)
        \<and> (post = [] \<or> \<not> is_word (hd post)))"
proof
  assume "match_values_http s"
  then obtain r1 r2 r3 where m: "match_ci ''VALUES'' s = Some r1"
      "match_ci ''{'' (dropWhile is_space r1) = Some r2"
      "match_ci ''<http'' (dropWhile is_space r2) = Some r3" "word_boundary True r3"
    by (auto simp: match_values_http_def split: option.splits)
  obtain v where v: "s = v @ r1" "ci_eq v ''VALUES''"
    using m(1) unfolding match_ci_Some_iff ci_eq_def by blast
  have b: "dropWhile is_space r1 = CHR ''{'' # r2" using m(2) by (simp add: match_brace)
  obtain ws1 where ws1: "r1 = ws1 @ CHR ''{'' # r2" "\<forall>c \<in> set ws1. is_space c"
    using b unfolding dropWhile_spaces_eq by blast
  obtain h where h: "dropWhile is_space r2 = h @ r3" "ci_eq h ''<http''"
    using m(3) unfolding match_ci_Some_iff ci_eq_def by blast
  obtain ws2 where ws2: "r2 = ws2 @ h @ r3" "\<forall>c \<in> set ws2. is_space c"
    using h(1) unfolding dropWhile_spaces_eq by blast
  have "s = v @ ws1 @ ''{'' @ ws2 @ h @ r3" using v ws1 ws2 by simp
  moreover have "r3 = [] \<or> \<not> is_word (hd r3)" using m(4) by (simp add: word_boundary_True)
  ultimately show "\<exists>v ws1 ws2 h post. s = v @ ws1 @ ''{'' @ ws2 @ h @ post
        \<and> ci_eq v ''VALUES'' \<and> ci_eq h ''<http''
        \<and> (\<forall>c \<in> set ws1. is_space c) \<and> (\<forall>c \<in> set ws2. is_space c)
        \<and> (post = [] \<or> \<not> is_word (hd post))"
    using v(2) h(2) ws1(2) ws2(2) by blast
next
  assume "\<exists>v ws1 ws2 h post. s = v @ ws1 @ ''{'' @ ws2 @ h @ post
        \<and> ci_eq v ''VALUES'' \<and> ci_eq h ''<http''
        \<and> (\<forall>c \<in> set ws1. is_space c) \<and> (\<forall>c \<in> set ws2. is_space c)
        \<and> (post = [] \<or> \<not> is_word (hd post))"
  then obtain v ws1 ws2 h post where a: "s = v @ ws1 @ ''{'' @ ws2 @ h @ post"
      "ci_eq v ''VALUES''" "ci_eq h ''<http''" "\<forall>c \<in> set ws1. is_space c"
      "\<forall>c \<in> set ws2. is_space c" "post = [] \<or> \<not> is_word (hd post)"
    by blast
  have 1: "match_ci ''VALUES'' s = Some (ws1 @ ''{'' @ ws2 @ h @ post)"
    unfolding match_ci_Some_iff using a(1,2) by (auto simp: ci_eq_def)
  have 2: "dropWhile is_space (ws1 @ ''{'' @ ws2 @ h @ post) = CHR ''{'' # (ws2 @ h @ post)"
    using a(4) by (simp add: dropWhile_append2 not_space_brace)
  have 3: "match_ci ''{'' (CHR ''{'' # (ws2 @ h @ post)) = Some (ws2 @ h @ post)"
    by (simp add: match_brace)
  have "h \<noteq> [] \<and> \<not> is_space (hd h)" using ci_http_hd a(3) by blast
  then have 4: "dropWhile is_space (ws2 @ h @ post) = h @ post"
    using a(5) by (cases h) (auto simp: dropWhile_append2)
  have 5: "match_ci ''<http'' (h @ post) = Some post"
    unfolding match_ci_Some_iff using a(3) by (auto simp: ci_eq_def)
  show "match_values_http s"
    unfolding match_values_http_def using 1 2 3 4 5 a(6) by (simp add: word_boundary_True)
qed

lemma contains_values_http_search:
  "contains_values_http q \<longleftrightarrow> search_b match_values_http False q"
proof
  assume "contains_values_http q"
  then obtain pre v ws1 ws2 h post where a: "q = pre @ v @ ws1 @ ''{'' @ ws2 @ h @ post"
      "ci_eq v ''VALUES''" "ci_eq h ''<http''" "\<forall>c \<in> set ws1. is_space c"
      "\<forall>c \<in> set ws2. is_space c" "pre = [] \<or> \<not> is_word (last pre)"
      "post = [] \<or> \<not> is_word (hd post)"
    unfolding contains_values_http_def by blast
  let ?p = "v @ ws1 @ ''{'' @ ws2 @ h @ post"
  have m: "match_values_http ?p" unfolding match_values_http_iff using a(2-5,7) by blast
  have "v \<noteq> [] \<and> is_word (hd v)"
    using ci_eq_hd_word [OF a(2)] by (simp add: is_word_def is_ascii_word_def)
  then obtain c v' where cv: "v = c # v'" "is_word c" by (cases v) auto
  have "word_boundary (if pre = [] then False else is_word (last pre)) ?p" using a(6) cv by auto
  moreover have "?p \<noteq> []" using cv by simp
  ultimately show "search_b match_values_http False q"
    unfolding search_b_iff using a(1) m by blast
next
  assume "search_b match_values_http False q"
  then obtain pre p where h: "q = pre @ p" "p \<noteq> []"
     "word_boundary (if pre = [] then False else is_word (last pre)) p" "match_values_http p"
    unfolding search_b_iff by blast
  obtain v ws1 ws2 h' post where a: "p = v @ ws1 @ ''{'' @ ws2 @ h' @ post"
      "ci_eq v ''VALUES''" "ci_eq h' ''<http''" "\<forall>c \<in> set ws1. is_space c"
      "\<forall>c \<in> set ws2. is_space c" "post = [] \<or> \<not> is_word (hd post)"
    using h(4) unfolding match_values_http_iff by blast
  have "v \<noteq> [] \<and> is_word (hd v)"
    using ci_eq_hd_word [OF a(2)] by (simp add: is_word_def is_ascii_word_def)
  then obtain c v' where cv: "v = c # v'" "is_word c" by (cases v) auto
  have "pre = [] \<or> \<not> is_word (last pre)" using h(3) a(1) cv by (auto split: if_splits)
  then show "contains_values_http q"
    unfolding contains_values_http_def using h(1) a by blast
qed

lemma search_b_disj:
  "search_b (\<lambda>s. P s \<or> Q s) pw s \<longleftrightarrow> search_b P pw s \<or> search_b Q pw s"
  by (induction s arbitrary: pw) auto

lemma search_b_bex:
  "search_b (\<lambda>s. \<exists>k \<in> set ks. P k s) pw s \<longleftrightarrow> (\<exists>k \<in> set ks. search_b (P k) pw s)"
  by (induction s arbitrary: pw) auto

lemma forbidden_keyword_hd:
  "w \<in> set forbidden_keywords \<Longrightarrow> w \<noteq> [] \<and> is_word (hd w)"
  unfolding forbidden_keywords_def by (elim set_ConsD [elim_format]) (auto simp: is_word_def is_ascii_word_def)

lemma forbidden_search_iff:
  "forbidden_search q \<longleftrightarrow>
     ((\<exists>w \<in> set forbidden_keywords. contains_word q w) \<or> contains_values_http q)"
proof -
  have "forbidden_search q \<longleftrightarrow>
      (\<exists>w \<in> set forbidden_keywords. search_b (match_keyword w) False q) \<or> search_b match_values_http False q"
    unfolding forbidden_search_def
    using search_b_disj [of "\<lambda>s. \<exists>kw \<in> set forbidden_keywords. match_keyword kw s" match_values_http False q]
      search_b_bex [of forbidden_keywords match_keyword False q]
    by (simp add: forbidden_at_def [abs_def])
  then show ?thesis
    using contains_word_search forbidden_keyword_hd contains_values_http_search by auto
qed

lemma spec_forbidden_words_eq: "spec_forbidden_words = forbidden_keywords"
  by (simp add: spec_forbidden_words_def forbidden_keywords_def)

lemma rule_forbidden_iff: "rule_forbidden q \<longleftrightarrow> \<not> forbidden_search q"
  unfolding rule_forbidden_def forbidden_search_iff spec_forbidden_words_eq by blast

lemma rule_type_iff: "rule_type cfg q \<longleftrightarrow> query_type_of q \<in> set (allowed_types cfg)"
proof -
  have k: "''SELECT'' \<in> set query_type_keywords" "''ASK'' \<in> set query_type_keywords"
     "''CONSTRUCT'' \<in> set query_type_keywords" "''DESCRIBE'' \<in> set query_type_keywords"
    by (simp_all add: query_type_keywords_def)
  show ?thesis
    unfolding rule_type_def allowed_types_def
    using query_type_of_starts [OF k(1), of q] query_type_of_starts [OF k(2), of q]
      query_type_of_starts [OF k(3), of q] query_type_of_starts [OF k(4), of q]
    by (cases "allow_describe cfg") auto
qed

lemma limit_word_hd: "''limit'' \<noteq> [] \<and> is_word (hd ''limit'')"
  by (simp add: is_word_def is_ascii_word_def)

lemma contains_limit_search: "contains_word q ''limit'' \<longleftrightarrow> search_b (match_keyword ''limit'') False q"
  using limit_word_hd contains_word_search [of "''limit''" q] by blast

lemma contains_word_lower:
  assumes "contains_word q w"
  shows "\<exists>pre post. lower q = pre @ lower w @ post"
proof -
  obtain pre m post where h: "q = pre @ m @ post" "ci_eq m w"
    using assms by (auto simp: contains_word_def)
  then have "lower q = lower pre @ lower w @ lower post" by (simp add: ci_eq_def lower_def)
  then show ?thesis by blast
qed

lemma limit_token_substring: "contains_word q ''limit'' \<Longrightarrow> contains (lower q) ''limit''"
proof -
  assume "contains_word q ''limit''"
  then have "\<exists>pre post. lower q = pre @ lower ''limit'' @ post" by (rule contains_word_lower)
  moreover have "lower ''limit'' = ''limit''" by (simp add: lower_def lower_char_def)
  ultimately show ?thesis by (simp add: contains_iff)
qed

lemma rule_limit_iff:
  "rule_limit q \<longleftrightarrow>
     \<not> (query_type_of q \<in> {''SELECT'', ''CONSTRUCT''} \<and> \<not> search_b (match_keyword ''limit'') False q)"
proof -
  have k: "''SELECT'' \<in> set query_type_keywords" "''CONSTRUCT'' \<in> set query_type_keywords"
    by (simp_all add: query_type_keywords_def)
  show ?thesis
    unfolding rule_limit_def contains_limit_search
    using query_type_of_starts [OF k(1), of q] query_type_of_starts [OF k(2), of q]
    by auto
qed

lemma limit_inside_word_only_iff:
  "limit_inside_word_only q \<longleftrightarrow>
     query_type_of q \<in> {''SELECT'', ''CONSTRUCT''} \<and> contains (lower q) ''limit''
     \<and> \<not> search_b (match_keyword ''limit'') False q"
proof -
  have k: "''SELECT'' \<in> set query_type_keywords" "''CONSTRUCT'' \<in> set query_type_keywords"
    by (simp_all add: query_type_keywords_def)
  show ?thesis
    unfolding limit_inside_word_only_def contains_limit_search contains_iff
    using query_type_of_starts [OF k(1), of q] query_type_of_starts [OF k(2), of q]
    by auto
qed

lemma validate_query_accepts:
  "fst (validate_query cfg q None) \<longleftrightarrow>
     int (length q) \<le> max_query_chars cfg \<and> query_type_of q \<in> set (allowed_types cfg)
     \<and> \<not> forbidden_search q
     \<and> \<not> (query_type_of q \<in> {''SELECT'', ''CONSTRUCT''} \<and> \<not> contains (lower q) ''limit'')"
  by (simp add: validate_query_def Let_def)

section \<open>C1: the validator and its four rules\<close>

lemma query_type_of_cases:
  "query_type_of q = ''UNKNOWN'' \<or> query_type_of q \<in> set query_type_keywords"
proof (cases "filter (\<lambda>kw. match_keyword kw (dropWhile is_space q)) query_type_keywords")
  case Nil
  then show ?thesis by (simp add: query_type_of_def)
next
  case (Cons k ks)
  then have "k \<in> set (filter (\<lambda>kw. match_keyword kw (dropWhile is_space q)) query_type_keywords)"
    by simp
  then have k: "k \<in> set query_type_keywords" "match_keyword k (dropWhile is_space q)" by auto
  then have "query_type_of q = k" using query_type_of_iff by blast
  then show ?thesis using k by simp
qed

lemma query_type_of_nonempty: "query_type_of q \<noteq> []"
  using query_type_of_cases [of q] keyword_cases [of "query_type_of q"] by auto

lemma validate_query_type_arg:
  "validate_query cfg q (Some (query_type_of q)) = validate_query cfg q None"
  by (simp add: validate_query_def query_type_of_nonempty)

lemma limit_test_is_token:
  assumes "\<not> limit_inside_word_only q"
  shows "(query_type_of q \<in> {''SELECT'', ''CONSTRUCT''} \<and> \<not> contains (lower q) ''limit'')
     \<longleftrightarrow> (query_type_of q \<in> {''SELECT'', ''CONSTRUCT''}
          \<and> \<not> search_b (match_keyword ''limit'') False q)"
  using assms limit_token_substring [of q]
  unfolding limit_inside_word_only_iff contains_limit_search by blast

lemma accepted_iff_rules_hold:
  assumes "\<not> limit_inside_word_only q"
  shows "fst (validate_query cfg q None) = rules_hold cfg q
   \<and> fst (validate_query cfg q (Some (query_type_of q))) = rules_hold cfg q"
  unfolding validate_query_type_arg rules_hold_def rule_forbidden_iff rule_type_iff rule_limit_iff
    rule_length_def validate_query_accepts limit_test_is_token [OF assms]
  by simp


text \<open>Unfolding these evaluates the validator on a concrete query.\<close>

lemmas eval_defs = validate_query_def example_config_def query_type_of_def query_type_keywords_def
    match_keyword_def is_space_def is_word_def is_ascii_word_def lower_char_def lower_def upper_def
    upper_char_def allowed_types_def forbidden_search_def forbidden_at_def forbidden_keywords_def
    match_values_http_def char_of_def bit_Suc_0_iff





section \<open>C9: DESCRIBE when it is not allowed\<close>

lemma describe_keyword: "''DESCRIBE'' \<in> set query_type_keywords"
  by (simp add: query_type_keywords_def)

text \<open>
  Claim C9, amended. With \<open>allow_describe\<close> off, every candidate whose first non-whitespace
  keyword is DESCRIBE is rejected. The reason is \<open>Only ASK, CONSTRUCT, SELECT are allowed\<close>
  when the query has at most \<open>max_query_chars\<close> characters; a longer one is rejected for its
  length, which is checked first.
\<close>

theorem describe_rejected_when_disallowed:
  assumes "\<not> allow_describe cfg" "starts_with_keyword q ''DESCRIBE''"
  shows "validate_query cfg q (Some (query_type_of q)) =
     (False, Some (if int (length q) \<le> max_query_chars cfg
                   then ''Only ASK, CONSTRUCT, SELECT are allowed''
                   else ''Query exceeds max_query_chars ('' @ str_int (max_query_chars cfg) @ '')''))"
proof -
  have "query_type_of q = ''DESCRIBE''"
    using assms(2) query_type_of_starts [OF describe_keyword] by simp
  then show ?thesis
    using assms(1) by (simp add: validate_query_def allowed_types_def)
qed

text \<open>C9 at a short DESCRIBE query and at one of 309 characters.\<close>

theorem describe_rejected_when_disallowed_witness:
  "\<not> allow_describe example_config \<and> starts_with_keyword ''DESCRIBE <http://x>'' ''DESCRIBE''
   \<and> validate_query example_config ''DESCRIBE <http://x>'' (Some (query_type_of ''DESCRIBE <http://x>''))
       = (False, Some ''Only ASK, CONSTRUCT, SELECT are allowed'')"
proof -
  have 1: "\<not> allow_describe example_config" by (simp add: example_config_def)
  have 2: "starts_with_keyword ''DESCRIBE <http://x>'' ''DESCRIBE''"
    unfolding starts_with_keyword_iff [OF describe_keyword] by (simp add: eval_defs)
  have 3: "int (length ''DESCRIBE <http://x>'') \<le> max_query_chars example_config"
    by (simp add: example_config_def)
  show ?thesis
    using describe_rejected_when_disallowed [OF 1 2] 1 2 3 by simp
qed

text \<open>
  Claim C9 as stated fails: the reason string of the code is not the one the claim quotes,
  and a DESCRIBE query over the length limit gets the length reason.
\<close>

theorem describe_reason_counterexample:
  "\<not> allow_describe example_config \<and> starts_with_keyword ''DESCRIBE <http://x>'' ''DESCRIBE''
   \<and> snd (validate_query example_config ''DESCRIBE <http://x>'' (Some (query_type_of ''DESCRIBE <http://x>'')))
       \<noteq> Some ''only SELECT, ASK, CONSTRUCT are allowed''
   \<and> starts_with_keyword (''DESCRIBE '' @ replicate 300 CHR ''x'') ''DESCRIBE''
   \<and> snd (validate_query example_config (''DESCRIBE '' @ replicate 300 CHR ''x'')
            (Some (query_type_of (''DESCRIBE '' @ replicate 300 CHR ''x''))))
       = Some ''Query exceeds max_query_chars (256)''"
proof -
  have 1: "\<not> allow_describe example_config" by (simp add: example_config_def)
  have 2: "starts_with_keyword ''DESCRIBE <http://x>'' ''DESCRIBE''"
    unfolding starts_with_keyword_iff [OF describe_keyword] by (simp add: eval_defs)
  have 3: "validate_query example_config ''DESCRIBE <http://x>'' (Some (query_type_of ''DESCRIBE <http://x>''))
       = (False, Some ''Only ASK, CONSTRUCT, SELECT are allowed'')"
    by (simp add: eval_defs)
  have 4: "starts_with_keyword (''DESCRIBE '' @ replicate 300 CHR ''x'') ''DESCRIBE''"
    unfolding starts_with_keyword_iff [OF describe_keyword] by (simp add: eval_defs)
  have 5: "str_int 256 = ''256''"
    by (simp add: str_int_def digits_of.simps char_of_def bit_Suc_0_iff)
  have 6: "validate_query example_config (''DESCRIBE '' @ replicate 300 CHR ''x'')
            (Some (query_type_of (''DESCRIBE '' @ replicate 300 CHR ''x'')))
       = (False, Some ''Query exceeds max_query_chars (256)'')"
    using 5 by (simp add: validate_query_def example_config_def)
  show ?thesis using 1 2 3 4 6 by simp
qed

section \<open>The concrete configurations are ones the constructor builds\<close>

lemma example_config_init: "init_config example_config = example_config"
  by (simp add: init_config_def example_config_def)

lemma hurried_config_init: "init_config hurried_config = hurried_config"
  by (simp add: init_config_def hurried_config_def example_config_def)

section \<open>The batch executor\<close>

lemma retry_sent:
  assumes "\<And>s ep r s'. run_query s ep = (r, s') \<Longrightarrow> \<exists>new. sent s' = sent s @ new \<and> (\<forall>x \<in> set new. snd x = q)"
  shows "run_with_endpoint_retry run_query eps errors s = (r, s')
    \<Longrightarrow> \<exists>new. sent s' = sent s @ new \<and> (\<forall>x \<in> set new. snd x = q)"
proof (induction eps arbitrary: errors s)
  case Nil
  then show ?case by (auto split: if_splits)
next
  case (Cons ep eps)
  obtain r1 s1 where r1: "run_query s ep = (r1, s1)" by (cases "run_query s ep") auto
  then obtain new1 where n1: "sent s1 = sent s @ new1" "\<forall>x \<in> set new1. snd x = q"
    using assms by blast
  show ?case
  proof (cases r1)
    case (Inr res)
    then have "s' = s1" using Cons.prems r1 by simp
    then show ?thesis using n1 by blast
  next
    case (Inl e)
    then have "run_with_endpoint_retry run_query eps (errors @ [e]) s1 = (r, s')"
      using Cons.prems r1 by simp
    then obtain new2 where "sent s' = sent s1 @ new2" "\<forall>x \<in> set new2. snd x = q"
      using Cons.IH by blast
    then have "sent s' = sent s @ (new1 @ new2) \<and> (\<forall>x \<in> set (new1 @ new2). snd x = q)"
      using n1 by auto
    then show ?thesis by blast
  qed
qed

lemma send_json_sent:
  "send_json env q s ep = (r, s') \<Longrightarrow> \<exists>new. sent s' = sent s @ new \<and> (\<forall>x \<in> set new. snd x = q)"
  by (auto simp: send_json_def split: prod.splits)

lemma send_turtle_sent:
  "send_turtle env q s ep = (r, s') \<Longrightarrow> \<exists>new. sent s' = sent s @ new \<and> (\<forall>x \<in> set new. snd x = q)"
  by (auto simp: send_turtle_def split: prod.splits)

lemma run_raw_json_sent:
  assumes "run_raw_json env cfg q s = (r, s')"
  shows "\<exists>new. sent s' = sent s @ new \<and> (\<forall>x \<in> set new. snd x = q)"
proof (rule retry_sent [OF _ assms [unfolded run_raw_json_def]])
  fix s1 ep r1 s1'
  assume a: "(if query_type_of q = ''DESCRIBE''
         then case send_turtle env q s1 ep of (Inl e, s') \<Rightarrow> (Inl e, s')
              | (Inr turtle, s') \<Rightarrow> (Inr (describe_payload cfg turtle), s')
         else send_json env q s1 ep) = (r1, s1')"
  show "\<exists>new. sent s1' = sent s1 @ new \<and> (\<forall>x \<in> set new. snd x = q)"
  proof (cases "query_type_of q = ''DESCRIBE''")
    case True
    obtain rt st where t: "send_turtle env q s1 ep = (rt, st)" by (cases "send_turtle env q s1 ep") auto
    then have "s1' = st" using a True by (auto split: sum.splits)
    then show ?thesis using send_turtle_sent [OF t] by simp
  next
    case False
    then show ?thesis using a send_json_sent by auto
  qed
qed

lemma run_construct_sent:
  assumes "run_construct env cfg q s = (r, s')"
  shows "\<exists>new. sent s' = sent s @ new \<and> (\<forall>x \<in> set new. snd x = q)"
  by (rule retry_sent [OF _ assms [unfolded run_construct_def]]) (rule send_turtle_sent)

lemma run_candidate_sent:
  assumes "run_candidate env cfg q qt uq s = (r, s')"
  shows "\<exists>new. sent s' = sent s @ new \<and> (\<forall>x \<in> set new. snd x = q)"
proof (cases "qt \<in> {''SELECT'', ''ASK'', ''DESCRIBE''}")
  case True
  obtain r1 s1 where r1: "run_raw_json env cfg q s = (r1, s1)" by (cases "run_raw_json env cfg q s") auto
  then have "s' = s1" using assms True by (auto simp: run_candidate_def split: sum.splits)
  then show ?thesis using run_raw_json_sent [OF r1] by simp
next
  case False
  obtain r1 s1 where r1: "run_construct env cfg q s = (r1, s1)" by (cases "run_construct env cfg q s") auto
  then have "s' = s1" using assms False by (auto simp: run_candidate_def split: sum.splits)
  then show ?thesis using run_construct_sent [OF r1] by simp
qed

lemma batch_loop_step:
  "batch_loop env cfg uq (c # cs) ev s =
     (if \<not> accepted cfg c
      then batch_loop env cfg uq cs (ev @ [rejected_evidence cfg c]) s
      else (case run_candidate env cfg c (query_type_of c) uq s of
              (Inr (preview, score), s') \<Rightarrow>
                batch_loop env cfg uq cs
                  (ev @ [\<lparr>ev_query = c, ev_query_type = query_type_of c, ev_preview = preview,
                                 ev_score = score, ev_error = None\<rparr>]) s'
            | (Inl e, s') \<Rightarrow>
                batch_loop env cfg uq cs
                  (ev @ [\<lparr>ev_query = c, ev_query_type = query_type_of c, ev_preview = [],
                                 ev_score = 0, ev_error = Some (str_exn env e)\<rparr>]) s'))"
  by (simp add: Let_def case_prod_beta accepted_def rejected_evidence_def)

lemma batch_loop_all2:
  assumes rej: "\<And>c. \<not> accepted cfg c \<Longrightarrow> P c (rejected_evidence cfg c)"
    and err: "\<And>c s e s'. accepted cfg c \<Longrightarrow>
        run_candidate env cfg c (query_type_of c) uq s = (Inl e, s') \<Longrightarrow>
        P c \<lparr>ev_query = c, ev_query_type = query_type_of c, ev_preview = [], ev_score = 0,
             ev_error = Some (str_exn env e)\<rparr>"
    and ok: "\<And>c s p sc s'. accepted cfg c \<Longrightarrow>
        run_candidate env cfg c (query_type_of c) uq s = (Inr (p, sc), s') \<Longrightarrow>
        P c \<lparr>ev_query = c, ev_query_type = query_type_of c, ev_preview = p, ev_score = sc,
             ev_error = None\<rparr>"
  shows "\<exists>new. fst (batch_loop env cfg uq cs ev s) = ev @ new \<and> list_all2 P cs new"
proof (induction cs arbitrary: ev s)
  case Nil
  then show ?case by simp
next
  case (Cons c cs)
  have "\<exists>e s1. batch_loop env cfg uq (c # cs) ev s = batch_loop env cfg uq cs (ev @ [e]) s1 \<and> P c e"
  proof (cases "accepted cfg c")
    case False
    then have "batch_loop env cfg uq (c # cs) ev s
        = batch_loop env cfg uq cs (ev @ [rejected_evidence cfg c]) s"
      by (simp add: batch_loop_step del: batch_loop.simps)
    then show ?thesis using rej [OF False] by blast
  next
    case True
    obtain r s1 where r: "run_candidate env cfg c (query_type_of c) uq s = (r, s1)"
      by (cases "run_candidate env cfg c (query_type_of c) uq s") auto
    show ?thesis
    proof (cases r)
      case (Inl e)
      then have "batch_loop env cfg uq (c # cs) ev s = batch_loop env cfg uq cs
          (ev @ [\<lparr>ev_query = c, ev_query_type = query_type_of c, ev_preview = [],
                  ev_score = 0, ev_error = Some (str_exn env e)\<rparr>]) s1"
        using True r by (simp add: batch_loop_step del: batch_loop.simps)
      then show ?thesis using err [OF True] r Inl by blast
    next
      case (Inr ps)
      obtain p sc where ps: "ps = (p, sc)" by (cases ps) auto
      then have "batch_loop env cfg uq (c # cs) ev s = batch_loop env cfg uq cs
          (ev @ [\<lparr>ev_query = c, ev_query_type = query_type_of c, ev_preview = p,
                  ev_score = sc, ev_error = None\<rparr>]) s1"
        using True r Inr by (simp add: batch_loop_step del: batch_loop.simps)
      then show ?thesis using ok [OF True] r Inr ps by blast
    qed
  qed
  then obtain e s1 where st:
      "batch_loop env cfg uq (c # cs) ev s = batch_loop env cfg uq cs (ev @ [e]) s1" "P c e"
    by blast
  obtain new where n: "fst (batch_loop env cfg uq cs (ev @ [e]) s1) = (ev @ [e]) @ new"
      "list_all2 P cs new"
    using Cons.IH [of "ev @ [e]" s1] by blast
  have "fst (batch_loop env cfg uq (c # cs) ev s) = ev @ (e # new) \<and> list_all2 P (c # cs) (e # new)"
    using st n by simp
  then show ?case by blast
qed

lemma batch_all2:
  assumes "\<And>c. \<not> accepted cfg c \<Longrightarrow> P c (rejected_evidence cfg c)"
    and "\<And>c s e s'. accepted cfg c \<Longrightarrow>
        run_candidate env cfg c (query_type_of c) uq s = (Inl e, s') \<Longrightarrow>
        P c \<lparr>ev_query = c, ev_query_type = query_type_of c, ev_preview = [], ev_score = 0,
             ev_error = Some (str_exn env e)\<rparr>"
    and "\<And>c s p sc s'. accepted cfg c \<Longrightarrow>
        run_candidate env cfg c (query_type_of c) uq s = (Inr (p, sc), s') \<Longrightarrow>
        P c \<lparr>ev_query = c, ev_query_type = query_type_of c, ev_preview = p, ev_score = sc,
             ev_error = None\<rparr>"
  shows "list_all2 P cs (fst (execute_sparql_batch env cfg cs uq s))"
  using batch_loop_all2 [of cfg P env uq cs "[]" s] assms
  by (simp add: execute_sparql_batch_def)

lemma batch_loop_sent:
  "\<exists>new. sent (snd (batch_loop env cfg uq cs ev s)) = sent s @ new
     \<and> (\<forall>x \<in> set new. snd x \<in> set cs \<and> accepted cfg (snd x))"
proof (induction cs arbitrary: ev s)
  case Nil
  then show ?case by simp
next
  case (Cons c cs)
  have "\<exists>e s1 new1. batch_loop env cfg uq (c # cs) ev s = batch_loop env cfg uq cs (ev @ [e]) s1
      \<and> sent s1 = sent s @ new1 \<and> (\<forall>x \<in> set new1. snd x = c \<and> accepted cfg c)"
  proof (cases "accepted cfg c")
    case False
    then have "batch_loop env cfg uq (c # cs) ev s = batch_loop env cfg uq cs (ev @ [rejected_evidence cfg c]) s
       \<and> sent s = sent s @ [] \<and> (\<forall>x \<in> set []. snd x = c \<and> accepted cfg c)"
      by (simp add: batch_loop_step del: batch_loop.simps)
    then show ?thesis by blast
  next
    case True
    obtain r s1 where r: "run_candidate env cfg c (query_type_of c) uq s = (r, s1)"
      by (cases "run_candidate env cfg c (query_type_of c) uq s") auto
    obtain new1 where n1: "sent s1 = sent s @ new1" "\<forall>x \<in> set new1. snd x = c"
      using run_candidate_sent [OF r] by blast
    have "\<exists>e. batch_loop env cfg uq (c # cs) ev s = batch_loop env cfg uq cs (ev @ [e]) s1"
      using True r by (cases r) (auto simp: batch_loop_step simp del: batch_loop.simps)
    then show ?thesis using n1 True by blast
  qed
  then obtain e s1 new1 where st: "batch_loop env cfg uq (c # cs) ev s = batch_loop env cfg uq cs (ev @ [e]) s1"
      "sent s1 = sent s @ new1" "\<forall>x \<in> set new1. snd x = c \<and> accepted cfg c" by blast
  obtain new2 where n2: "sent (snd (batch_loop env cfg uq cs (ev @ [e]) s1)) = sent s1 @ new2"
      "\<forall>x \<in> set new2. snd x \<in> set cs \<and> accepted cfg (snd x)"
    using Cons.IH [of "ev @ [e]" s1] by blast
  have "sent (snd (batch_loop env cfg uq (c # cs) ev s)) = sent s @ (new1 @ new2)
     \<and> (\<forall>x \<in> set (new1 @ new2). snd x \<in> set (c # cs) \<and> accepted cfg (snd x))"
    using st n2 by auto
  then show ?case by blast
qed

lemma batch_shape:
  "list_all2 (\<lambda>c e. ev_query e = c \<and> (\<not> accepted cfg c \<longrightarrow> e = rejected_evidence cfg c)
                    \<and> (ev_error e \<noteq> None \<longrightarrow> ev_score e = 0 \<and> ev_preview e = []))
     candidates (fst (execute_sparql_batch env cfg candidates user_query s))"
  by (rule batch_all2) (simp_all add: rejected_evidence_def)

lemma rejected_has_reason: "\<not> fst (validate_query cfg q t) \<Longrightarrow> snd (validate_query cfg q t) \<noteq> None"
  by (simp add: validate_query_def Let_def split: if_splits)

lemma batch_queries:
  "map ev_query (fst (execute_sparql_batch env cfg candidates user_query s)) = candidates"
proof -
  let ?evs = "fst (execute_sparql_batch env cfg candidates user_query s)"
  have "list_all2 (\<lambda>c e. ev_query e = c) candidates ?evs"
    by (rule list_all2_mono [OF batch_shape]) simp
  then have "list_all2 (\<lambda>e c. ev_query e = c) ?evs candidates"
    by (simp add: list_all2_conv_all_nth)
  then show ?thesis
    by (simp add: list_all2_conv_all_nth list_eq_iff_nth_eq)
qed

text \<open>
  Claim C10. The batch executor returns one record per candidate, in the order of the
  candidates, and the query of each record is its candidate, whatever is rejected or fails.
\<close>

theorem batch_evidence_in_order:
  "length (fst (execute_sparql_batch env cfg candidates user_query s)) = length candidates
   \<and> map ev_query (fst (execute_sparql_batch env cfg candidates user_query s)) = candidates"
  using batch_queries [of env cfg candidates user_query s] by (metis length_map)

text \<open>
  Claim C4. In every record the batch executor produces, an error that is not null comes
  with score 0 and an empty preview.
\<close>

theorem error_evidence_has_no_score:
  "\<forall>e \<in> set (fst (execute_sparql_batch env cfg candidates user_query s)).
     ev_error e \<noteq> None \<longrightarrow> ev_score e = 0 \<and> ev_preview e = []"
proof -
  let ?evs = "fst (execute_sparql_batch env cfg candidates user_query s)"
  have "list_all2 (\<lambda>c e. ev_error e \<noteq> None \<longrightarrow> ev_score e = 0 \<and> ev_preview e = []) candidates ?evs"
    by (rule list_all2_mono [OF batch_shape]) simp
  then show ?thesis
    by (auto simp: list_all2_conv_all_nth in_set_conv_nth)
qed

text \<open>
  A candidate the validator turns down is recorded with the validator's reason as its error,
  score 0 and no preview; no request is sent for it: every request the batch sends carries
  a candidate the validator accepts. Such a candidate satisfies the four rules unless
  \<open>limit\<close> occurs in it only inside a longer word.
\<close>

lemma rejected_candidates_recorded_not_sent:
  "(\<forall>i < length candidates. \<not> fst (validate_query cfg (candidates ! i) (Some (query_type_of (candidates ! i))))
       \<longrightarrow> fst (execute_sparql_batch env cfg candidates user_query s) ! i
            = \<lparr>ev_query = candidates ! i, ev_query_type = query_type_of (candidates ! i),
               ev_preview = [], ev_score = 0,
               ev_error = snd (validate_query cfg (candidates ! i) (Some (query_type_of (candidates ! i))))\<rparr>
         \<and> snd (validate_query cfg (candidates ! i) (Some (query_type_of (candidates ! i)))) \<noteq> None)
   \<and> (\<exists>new. sent (snd (execute_sparql_batch env cfg candidates user_query s)) = sent s @ new
         \<and> (\<forall>x \<in> set new. snd x \<in> set candidates
               \<and> fst (validate_query cfg (snd x) (Some (query_type_of (snd x))))
               \<and> (\<not> limit_inside_word_only (snd x) \<longrightarrow> rules_hold cfg (snd x))))"
proof -
  let ?evs = "fst (execute_sparql_batch env cfg candidates user_query s)"
  have "list_all2 (\<lambda>c e. \<not> accepted cfg c \<longrightarrow> e = rejected_evidence cfg c) candidates ?evs"
    by (rule list_all2_mono [OF batch_shape]) simp
  then have 1: "\<forall>i < length candidates. \<not> accepted cfg (candidates ! i)
      \<longrightarrow> ?evs ! i = rejected_evidence cfg (candidates ! i)"
    by (simp add: list_all2_conv_all_nth)
  obtain new where n: "sent (snd (execute_sparql_batch env cfg candidates user_query s)) = sent s @ new"
      "\<forall>x \<in> set new. snd x \<in> set candidates \<and> accepted cfg (snd x)"
    using batch_loop_sent [of env cfg user_query candidates "[]" s]
    by (auto simp: execute_sparql_batch_def)
  have "\<forall>x \<in> set new. snd x \<in> set candidates
               \<and> fst (validate_query cfg (snd x) (Some (query_type_of (snd x))))
               \<and> (\<not> limit_inside_word_only (snd x) \<longrightarrow> rules_hold cfg (snd x))"
    using n(2) accepted_iff_rules_hold by (auto simp: accepted_def)
  then show ?thesis
    using 1 n(1) rejected_has_reason by (auto simp: accepted_def rejected_evidence_def)
qed

text \<open>Unfolding these as well evaluates a batch in the concrete world.\<close>

lemmas batch_eval_defs = execute_sparql_batch_def run_candidate_def run_raw_json_def run_construct_def
  send_json_def send_turtle_def build_endpoint_candidates_def replace_def example_env_def
  example_engine_def score_json_payload_def dict_get_def lookup_def has_key_def py_str_def
  str_exn_def Let_def

lemma example_batch:
  "execute_sparql_batch example_env example_config
      [''SELECT ?s WHERE { ?s ?p ?o }'', ''ASK { ?s ?p ?o }'', ''ASK { ?s ?p ?o }''] ''x'' example_engine
   = ([\<lparr>ev_query = ''SELECT ?s WHERE { ?s ?p ?o }'', ev_query_type = ''SELECT'', ev_preview = [],
         ev_score = 0, ev_error = Some ''Row/graph returning query must include LIMIT''\<rparr>,
       \<lparr>ev_query = ''ASK { ?s ?p ?o }'', ev_query_type = ''ASK'', ev_preview = [], ev_score = 0,
         ev_error = Some ''connection refused''\<rparr>,
       \<lparr>ev_query = ''ASK { ?s ?p ?o }'', ev_query_type = ''ASK'', ev_preview = ''ASK result: True'',
         ev_score = 1, ev_error = None\<rparr>],
      \<lparr>world = 3, sent = [(''http://host.docker.internal:7200/x'', ''ASK { ?s ?p ?o }''),
          (''http://172.17.0.1:7200/x'', ''ASK { ?s ?p ?o }''),
          (''http://host.docker.internal:7200/x'', ''ASK { ?s ?p ?o }'')],
        schema_metadata_cache = None, schema_ttl_cache = None\<rparr>)"
  by (simp add: batch_eval_defs eval_defs)

text \<open>
  C4 in the concrete world: of three candidates the first is rejected, the second fails at
  both endpoints, the third succeeds.
\<close>

theorem error_evidence_has_no_score_witness:
  "ev_error (fst (execute_sparql_batch example_env example_config
      [''SELECT ?s WHERE { ?s ?p ?o }'', ''ASK { ?s ?p ?o }'', ''ASK { ?s ?p ?o }''] ''x'' example_engine) ! 1)
     = Some ''connection refused''
   \<and> ev_score (fst (execute_sparql_batch example_env example_config
      [''SELECT ?s WHERE { ?s ?p ?o }'', ''ASK { ?s ?p ?o }'', ''ASK { ?s ?p ?o }''] ''x'' example_engine) ! 1) = 0
   \<and> ev_preview (fst (execute_sparql_batch example_env example_config
      [''SELECT ?s WHERE { ?s ?p ?o }'', ''ASK { ?s ?p ?o }'', ''ASK { ?s ?p ?o }''] ''x'' example_engine) ! 1) = []"
  using error_evidence_has_no_score [of example_env example_config
      "[''SELECT ?s WHERE { ?s ?p ?o }'', ''ASK { ?s ?p ?o }'', ''ASK { ?s ?p ?o }'']" "''x''" example_engine]
  by (simp add: example_batch)

text \<open>
  In the concrete world: the SELECT without LIMIT is recorded with the validator's reason
  and never sent; the three requests carry the ASK.
\<close>

lemma rejected_select_not_sent:
  "\<not> fst (validate_query example_config ''SELECT ?s WHERE { ?s ?p ?o }''
            (Some (query_type_of ''SELECT ?s WHERE { ?s ?p ?o }'')))
   \<and> fst (execute_sparql_batch example_env example_config
      [''SELECT ?s WHERE { ?s ?p ?o }'', ''ASK { ?s ?p ?o }'', ''ASK { ?s ?p ?o }''] ''x'' example_engine) ! 0
     = \<lparr>ev_query = ''SELECT ?s WHERE { ?s ?p ?o }'', ev_query_type = ''SELECT'', ev_preview = [],
         ev_score = 0, ev_error = Some ''Row/graph returning query must include LIMIT''\<rparr>
   \<and> map snd (sent (snd (execute_sparql_batch example_env example_config
      [''SELECT ?s WHERE { ?s ?p ?o }'', ''ASK { ?s ?p ?o }'', ''ASK { ?s ?p ?o }''] ''x'' example_engine)))
     = [''ASK { ?s ?p ?o }'', ''ASK { ?s ?p ?o }'', ''ASK { ?s ?p ?o }'']"
proof -
  have 1: "\<not> fst (validate_query example_config ''SELECT ?s WHERE { ?s ?p ?o }''
            (Some (query_type_of ''SELECT ?s WHERE { ?s ?p ?o }'')))"
    by (simp add: eval_defs)
  show ?thesis using 1 by (simp add: example_batch)
qed

text \<open>
  Claim C2 fails at the batch of the one candidate
  \<open>SELECT ?unlimited WHERE { ?s ?p ?unlimited }\<close>. The query is a SELECT and has no
  token \<open>limit\<close>, so it breaks rule 4 and with it the four rules; the validator accepts
  it all the same, because the letters \<open>limit\<close> occur in \<open>?unlimited\<close>, and the batch
  sends it to the endpoint.
\<close>

theorem unlimited_select_is_sent:
  "query_type_of ''SELECT ?unlimited WHERE { ?s ?p ?unlimited }'' = ''SELECT''
   \<and> \<not> contains_word ''SELECT ?unlimited WHERE { ?s ?p ?unlimited }'' ''limit''
   \<and> \<not> rules_stated example_config ''SELECT ?unlimited WHERE { ?s ?p ?unlimited }''
   \<and> validate_query example_config ''SELECT ?unlimited WHERE { ?s ?p ?unlimited }''
        (Some (query_type_of ''SELECT ?unlimited WHERE { ?s ?p ?unlimited }'')) = (True, None)
   \<and> ev_error (hd (fst (execute_sparql_batch example_env example_config
        [''SELECT ?unlimited WHERE { ?s ?p ?unlimited }''] ''x'' warmed_engine))) = None
   \<and> sent (snd (execute_sparql_batch example_env example_config
        [''SELECT ?unlimited WHERE { ?s ?p ?unlimited }''] ''x'' warmed_engine))
     = [(''http://host.docker.internal:7200/x'', ''SELECT ?unlimited WHERE { ?s ?p ?unlimited }'')]"
proof -
  have 1: "query_type_of ''SELECT ?unlimited WHERE { ?s ?p ?unlimited }'' = ''SELECT''"
    by (simp add: eval_defs)
  have 2: "\<not> contains_word ''SELECT ?unlimited WHERE { ?s ?p ?unlimited }'' ''limit''"
    unfolding contains_limit_search by (simp add: eval_defs)
  have 3: "\<not> rule_limit ''SELECT ?unlimited WHERE { ?s ?p ?unlimited }''"
    unfolding rule_limit_iff by (simp add: eval_defs)
  have 4: "validate_query example_config ''SELECT ?unlimited WHERE { ?s ?p ?unlimited }''
        (Some (query_type_of ''SELECT ?unlimited WHERE { ?s ?p ?unlimited }'')) = (True, None)"
    by (simp add: eval_defs)
  have 5: "execute_sparql_batch example_env example_config
        [''SELECT ?unlimited WHERE { ?s ?p ?unlimited }''] ''x'' warmed_engine
     = ([\<lparr>ev_query = ''SELECT ?unlimited WHERE { ?s ?p ?unlimited }'', ev_query_type = ''SELECT'',
          ev_preview = ''ASK result: True'', ev_score = 1, ev_error = None\<rparr>],
        \<lparr>world = 3,
         sent = [(''http://host.docker.internal:7200/x'', ''SELECT ?unlimited WHERE { ?s ?p ?unlimited }'')],
         schema_metadata_cache = None, schema_ttl_cache = None\<rparr>)"
    by (simp add: batch_eval_defs eval_defs warmed_engine_def)
  show ?thesis using 1 2 3 4 by (simp add: 5 rules_stated_def)
qed

section \<open>The scorer\<close>

lemma score_of_range: "0 \<le> score_of n cap hits \<and> score_of n cap hits \<le> 1"
proof -
  have "0 \<le> real n / real_of_int (max 1 cap)" by simp
  moreover have "0 \<le> real hits * (3 / 100)" by simp
  ultimately have "0 \<le> real n / real_of_int (max 1 cap) + real hits * (3 / 100)" by linarith
  then show ?thesis by (simp add: score_of_def)
qed

lemma score_construct_range:
  "0 \<le> snd (score_construct_payload cfg turtle uq) \<and> snd (score_construct_payload cfg turtle uq) \<le> 1"
  using score_of_range by (simp add: score_construct_payload_def Let_def)

lemma score_json_range:
  assumes "score_json_payload env cfg payload uq = Inr (p, sc)" "describe_score_ok env payload"
  shows "0 \<le> sc \<and> sc \<le> 1"
proof -
  obtain entries where pl: "payload = JObj entries"
    using assms(1) by (cases payload) (auto simp: score_json_payload_def)
  obtain bindings where b: "dict_get (lookup entries ''results'' (JObj [])) ''bindings'' (JArr []) = Inr bindings"
    using assms(1) pl by (auto simp: score_json_payload_def split: sum.splits)
  show ?thesis
  proof (cases "\<not> truthy bindings \<and> has_key entries ''boolean''")
    case True
    then have "sc = 1 \<or> sc = 2 / 10"
      using assms(1) pl b by (auto simp: score_json_payload_def split: if_splits)
    then show ?thesis by auto
  next
    case False
    then obtain rows lines hits where r: "json_slice_to bindings (max_rows cfg) = Inr rows"
        "score_rows env (text_tokens (lower uq)) rows [] 0 = Inr (lines, hits)"
      using assms(1) pl b by (auto simp: score_json_payload_def Let_def split: sum.splits if_splits)
    let ?score = "score_of (length lines) (max_rows cfg) hits"
    show ?thesis
    proof (cases "has_key entries ''_describe_score''")
      case True
      then obtain d where d: "py_float env (lookup entries ''_describe_score'' (JFloat 0)) = Inr d"
          "sc = max ?score d"
        using assms(1) pl b r False by (auto simp: score_json_payload_def Let_def split: sum.splits)
      then have "0 \<le> d \<and> d \<le> 1" using assms(2) pl True by (simp add: describe_score_ok_def)
      then show ?thesis using d(2) score_of_range [of "length lines" "max_rows cfg" hits] by auto
    next
      case nk: False
      then have "sc = ?score"
        using assms(1) pl b r False by (auto simp: score_json_payload_def Let_def)
      then show ?thesis using score_of_range by simp
    qed
  qed
qed

lemma describe_payload_ok: "describe_score_ok env (describe_payload cfg turtle)"
  using score_construct_range [of cfg turtle "[]"]
  by (auto simp: describe_score_ok_def describe_payload_def py_float_def lookup_def has_key_def
      split: prod.splits)

lemma describe_payload_scored:
  "\<exists>p sc. score_json_payload env cfg (describe_payload cfg turtle) uq = Inr (p, sc)"
proof -
  obtain pv s0 where sc: "score_construct_payload cfg turtle [] = (pv, s0)"
    by (cases "score_construct_payload cfg turtle []") auto
  let ?row = "JObj [(''describe'', JObj [(''type'', JStr ''literal''), (''value'', JStr pv)])]"
  have "slice_to (max_rows cfg) [?row] = [] \<or> slice_to (max_rows cfg) [?row] = [?row]"
    by (cases "nat (max_rows cfg)") (auto simp: slice_to_def)
  then show ?thesis
    using sc
    by (auto simp: score_json_payload_def describe_payload_def dict_get_def lookup_def has_key_def
        json_slice_to_def py_float_def Let_def)
qed

lemma retry_result:
  assumes "\<And>s ep r s'. run_query s ep = (Inr r, s') \<Longrightarrow> P r"
  shows "run_with_endpoint_retry run_query eps errors s = (Inr r, s') \<Longrightarrow> P r"
proof (induction eps arbitrary: errors s)
  case Nil
  then show ?case by (auto split: if_splits)
next
  case (Cons ep eps)
  obtain r1 s1 where r1: "run_query s ep = (r1, s1)" by (cases "run_query s ep") auto
  show ?case
  proof (cases r1)
    case (Inr res)
    then show ?thesis using Cons.prems r1 assms by auto
  next
    case (Inl e)
    then show ?thesis using Cons.prems r1 Cons.IH by auto
  qed
qed

lemma run_raw_json_ok:
  assumes "\<forall>w ep q j w'. query_json env w ep q = (Inr j, w') \<longrightarrow> describe_score_ok env j"
    and "run_raw_json env cfg q s = (Inr payload, s')"
  shows "describe_score_ok env payload"
proof (rule retry_result [OF _ assms(2) [unfolded run_raw_json_def]])
  fix s1 ep r s1'
  assume a: "(if query_type_of q = ''DESCRIBE''
         then case send_turtle env q s1 ep of (Inl e, s') \<Rightarrow> (Inl e, s')
              | (Inr turtle, s') \<Rightarrow> (Inr (describe_payload cfg turtle), s')
         else send_json env q s1 ep) = (Inr r, s1')"
  show "describe_score_ok env r"
  proof (cases "query_type_of q = ''DESCRIBE''")
    case True
    then obtain turtle where "r = describe_payload cfg turtle"
      using a by (auto split: prod.splits sum.splits)
    then show ?thesis by (simp add: describe_payload_ok)
  next
    case False
    then have "send_json env q s1 ep = (Inr r, s1')" using a by simp
    then obtain w' where "query_json env (world s1) ep q = (Inr r, w')"
      by (auto simp: send_json_def split: prod.splits)
    then show ?thesis using assms(1) by blast
  qed
qed

lemma run_candidate_range:
  assumes "\<forall>w ep q j w'. query_json env w ep q = (Inr j, w') \<longrightarrow> describe_score_ok env j"
    and "run_candidate env cfg q qt uq s = (Inr (p, sc), s')"
  shows "0 \<le> sc \<and> sc \<le> 1"
proof (cases "qt \<in> {''SELECT'', ''ASK'', ''DESCRIBE''}")
  case True
  then obtain payload s1 where r: "run_raw_json env cfg q s = (Inr payload, s1)"
      "score_json_payload env cfg payload uq = Inr (p, sc)"
    using assms(2) by (auto simp: run_candidate_def split: prod.splits sum.splits)
  then show ?thesis using score_json_range run_raw_json_ok [OF assms(1) r(1)] by blast
next
  case False
  then obtain payload where "score_construct_payload cfg payload uq = (p, sc)"
    using assms(2) by (auto simp: run_candidate_def split: prod.splits sum.splits)
  then show ?thesis using score_construct_range [of cfg payload uq] by simp
qed

lemma batch_scores_range:
  assumes "\<forall>w ep q j w'. query_json env w ep q = (Inr j, w') \<longrightarrow> describe_score_ok env j"
  shows "\<forall>e \<in> set (fst (execute_sparql_batch env cfg cs uq s)). 0 \<le> ev_score e \<and> ev_score e \<le> 1"
proof -
  have "list_all2 (\<lambda>c e. 0 \<le> ev_score e \<and> ev_score e \<le> 1) cs (fst (execute_sparql_batch env cfg cs uq s))"
  proof (rule batch_all2)
    show "\<And>c. \<not> accepted cfg c \<Longrightarrow> 0 \<le> ev_score (rejected_evidence cfg c) \<and> ev_score (rejected_evidence cfg c) \<le> 1"
      by (simp add: rejected_evidence_def)
  next
    fix c s e s'
    show "0 \<le> ev_score \<lparr>ev_query = c, ev_query_type = query_type_of c, ev_preview = [], ev_score = 0,
             ev_error = Some (str_exn env e)\<rparr> \<and> ev_score \<lparr>ev_query = c, ev_query_type = query_type_of c, ev_preview = [], ev_score = 0,
             ev_error = Some (str_exn env e)\<rparr> \<le> 1" by simp
  next
    fix c s p sc s'
    assume "run_candidate env cfg c (query_type_of c) uq s = (Inr (p, sc), s')"
    then have "0 \<le> sc \<and> sc \<le> 1" using run_candidate_range [OF assms] by blast
    then show "0 \<le> ev_score \<lparr>ev_query = c, ev_query_type = query_type_of c, ev_preview = p, ev_score = sc,
             ev_error = None\<rparr> \<and> ev_score \<lparr>ev_query = c, ev_query_type = query_type_of c, ev_preview = p, ev_score = sc,
             ev_error = None\<rparr> \<le> 1" by simp
  qed
  then show ?thesis by (auto simp: list_all2_conv_all_nth in_set_conv_nth)
qed

text \<open>
  Claim C6, amended. For every JSON payload that has a \<open>boolean\<close> field holding true or
  false, and whose \<open>results\<close> field is absent, or is an object whose \<open>bindings\<close> are
  absent, empty or another value Python counts as false, the scorer returns
  \<open>ASK result: True\<close> with score 1.0 for true and \<open>ASK result: False\<close> with score 0.2
  for false.
\<close>

theorem ask_payload_score:
  assumes "map_of entries ''boolean'' = Some (JBool b)"
    and "map_of entries ''results'' = None
         \<or> (\<exists>res. map_of entries ''results'' = Some (JObj res)
                \<and> (map_of res ''bindings'' = None
                     \<or> (\<exists>bindings. map_of res ''bindings'' = Some bindings \<and> \<not> truthy bindings)))"
  shows "score_json_payload env cfg (JObj entries) user_query =
     Inr (if b then ''ASK result: True'' else ''ASK result: False'', if b then 1 else 2 / 10)"
  using assms
  by (auto simp: score_json_payload_def has_key_def lookup_def py_str_def dict_get_def)

text \<open>
  C6 at the two answers an endpoint gives to an ASK, which have no \<open>results\<close>, and at an
  answer with an empty list of bindings.
\<close>

theorem ask_payload_score_witness:
  "score_json_payload example_env example_config
      (JObj [(''head'', JObj []), (''boolean'', JBool True)]) ''is there a pump'' = Inr (''ASK result: True'', 1)
   \<and> score_json_payload example_env example_config
      (JObj [(''head'', JObj []), (''boolean'', JBool False)]) ''is there a pump'' = Inr (''ASK result: False'', 2 / 10)
   \<and> score_json_payload example_env example_config
      (JObj [(''results'', JObj [(''bindings'', JArr [])]), (''boolean'', JBool False)]) ''is there a pump''
     = Inr (''ASK result: False'', 2 / 10)"
proof -
  have 1: "map_of [(''head'', JObj []), (''boolean'', JBool b)] ''boolean'' = Some (JBool b)" for b
    by simp
  have 2: "map_of [(''head'', JObj []), (''boolean'', JBool b)] ''results'' = None
     \<or> (\<exists>res. map_of [(''head'', JObj []), (''boolean'', JBool b)] ''results'' = Some (JObj res)
                \<and> (map_of res ''bindings'' = None
                     \<or> (\<exists>bindings. map_of res ''bindings'' = Some bindings \<and> \<not> truthy bindings)))" for b
    by simp
  have 3: "map_of [(''results'', JObj [(''bindings'', JArr [])]), (''boolean'', JBool False)] ''boolean''
      = Some (JBool False)"
    by simp
  have 4: "map_of [(''results'', JObj [(''bindings'', JArr [])]), (''boolean'', JBool False)] ''results'' = None
     \<or> (\<exists>res. map_of [(''results'', JObj [(''bindings'', JArr [])]), (''boolean'', JBool False)] ''results''
                  = Some (JObj res)
                \<and> (map_of res ''bindings'' = None
                     \<or> (\<exists>bindings. map_of res ''bindings'' = Some bindings \<and> \<not> truthy bindings)))"
    by simp
  show ?thesis
    using ask_payload_score [where b = True and env = example_env and cfg = example_config
          and user_query = "''is there a pump''", OF 1 2]
      ask_payload_score [where b = False and env = example_env and cfg = example_config
          and user_query = "''is there a pump''", OF 1 2]
      ask_payload_score [where env = example_env and cfg = example_config
          and user_query = "''is there a pump''", OF 3 4]
    by simp
qed

text \<open>
  Claim C6 as stated fails: a payload with a \<open>boolean\<close> field and a binding row is scored
  as rows, the preview being the row and the score one row out of ten; and for a payload
  with a \<open>boolean\<close> field whose \<open>results\<close> is null the scorer raises, null having no
  \<open>get\<close>.
\<close>

theorem boolean_with_bindings_counterexample:
  "map_of [(''boolean'', JBool True),
           (''results'', JObj [(''bindings'', JArr [JObj [(''s'', JObj [(''value'', JStr ''x'')])]])])]
      ''boolean'' = Some (JBool True)
   \<and> score_json_payload example_env example_config
      (JObj [(''boolean'', JBool True),
             (''results'', JObj [(''bindings'', JArr [JObj [(''s'', JObj [(''value'', JStr ''x'')])]])])])
      ''q''
     = Inr (''{'' @ [CHR 0x22] @ ''s'' @ [CHR 0x22] @ '': '' @ [CHR 0x22] @ ''x'' @ [CHR 0x22] @ ''}'', 1 / 10)
   \<and> map_of [(''results'', JNull), (''boolean'', JBool True)] ''boolean'' = Some (JBool True)
   \<and> score_json_payload example_env example_config
      (JObj [(''results'', JNull), (''boolean'', JBool True)]) ''q''
     = Inl (NoAttribute JNull ''get'')"
  by (simp add: score_json_payload_def dict_get_def lookup_def has_key_def json_slice_to_def slice_to_def
      example_config_def example_env_def lexical_hits_def text_tokens_def lower_def lower_char_def
      is_ascii_word_def score_of_def Let_def)

text \<open>
  Claim C7, amended. The CONSTRUCT scorer's score lies in [0, 1] for every Turtle text; so
  does the JSON scorer's for every payload whose \<open>_describe_score\<close>, if it has one, is a
  number in [0, 1], and for every payload the driver builds for a DESCRIBE. Hence every
  record of a batch has its score in [0, 1] when the endpoint's own JSON answers carry no
  \<open>_describe_score\<close> outside [0, 1].
\<close>

theorem scores_in_unit_interval:
  "(0 \<le> snd (score_construct_payload cfg turtle user_query)
      \<and> snd (score_construct_payload cfg turtle user_query) \<le> 1)
   \<and> (describe_score_ok env payload \<longrightarrow>
        (\<forall>preview sc. score_json_payload env cfg payload user_query = Inr (preview, sc)
            \<longrightarrow> 0 \<le> sc \<and> sc \<le> 1))
   \<and> (\<exists>preview sc. score_json_payload env cfg (describe_payload cfg turtle) user_query = Inr (preview, sc)
          \<and> 0 \<le> sc \<and> sc \<le> 1)
   \<and> ((\<forall>w ep q j w'. query_json env w ep q = (Inr j, w') \<longrightarrow> describe_score_ok env j) \<longrightarrow>
        (\<forall>e \<in> set (fst (execute_sparql_batch env cfg candidates user_query s)).
            0 \<le> ev_score e \<and> ev_score e \<le> 1))"
proof -
  obtain p sc where d: "score_json_payload env cfg (describe_payload cfg turtle) user_query = Inr (p, sc)"
    using describe_payload_scored by blast
  then have "0 \<le> sc \<and> sc \<le> 1" using score_json_range describe_payload_ok by blast
  then have "\<exists>preview sc. score_json_payload env cfg (describe_payload cfg turtle) user_query = Inr (preview, sc)
          \<and> 0 \<le> sc \<and> sc \<le> 1"
    using d by blast
  then show ?thesis
    using score_construct_range [of cfg turtle user_query] score_json_range [of env cfg payload user_query]
      batch_scores_range [of env cfg candidates user_query s]
    by blast
qed

text \<open>
  C7 in the concrete world: the answer of an ASK, the payload of a DESCRIBE, and the three
  records of the batch.
\<close>

theorem scores_in_unit_interval_witness:
  "describe_score_ok example_env (JObj [(''boolean'', JBool True)])
   \<and> score_json_payload example_env example_config (JObj [(''boolean'', JBool True)]) ''x''
       = Inr (''ASK result: True'', 1)
   \<and> list_all (\<lambda>e. 0 \<le> ev_score e \<and> ev_score e \<le> 1)
        (fst (execute_sparql_batch example_env example_config
           [''SELECT ?s WHERE { ?s ?p ?o }'', ''ASK { ?s ?p ?o }'', ''ASK { ?s ?p ?o }''] ''x'' example_engine))"
proof -
  have 1: "describe_score_ok example_env (JObj [(''boolean'', JBool True)])"
    by (simp add: describe_score_ok_def has_key_def split: sum.splits)
  have 2: "score_json_payload example_env example_config (JObj [(''boolean'', JBool True)]) ''x''
       = Inr (''ASK result: True'', 1)"
    by (simp add: score_json_payload_def dict_get_def lookup_def has_key_def py_str_def)
  have 3: "\<forall>w ep q j w'. query_json example_env w ep q = (Inr j, w') \<longrightarrow> describe_score_ok example_env j"
    using 1 by (auto simp: example_env_def split: if_splits)
  note t = scores_in_unit_interval [where cfg = example_config and turtle = "[]"
      and user_query = "''x''" and env = example_env and payload = "JObj [(''boolean'', JBool True)]"
      and candidates = "[''SELECT ?s WHERE { ?s ?p ?o }'', ''ASK { ?s ?p ?o }'', ''ASK { ?s ?p ?o }'']"
      and s = example_engine]
  have 5: "list_all (\<lambda>e. 0 \<le> ev_score e \<and> ev_score e \<le> 1)
        (fst (execute_sparql_batch example_env example_config
           [''SELECT ?s WHERE { ?s ?p ?o }'', ''ASK { ?s ?p ?o }'', ''ASK { ?s ?p ?o }''] ''x'' example_engine))"
    using t 3 unfolding list_all_iff by blast
  show ?thesis using 1 2 5 by blast
qed

text \<open>
  Claim C7 as stated fails: the scorer takes the maximum with whatever \<open>_describe_score\<close>
  the payload carries, here 5.
\<close>

theorem describe_score_counterexample:
  "score_json_payload example_env example_config
      (JObj [(''results'', JObj [(''bindings'', JArr [])]), (''_describe_score'', JInt 5)]) ''q''
     = Inr (''No rows returned'', 5)"
  by (simp add: score_json_payload_def dict_get_def lookup_def has_key_def json_slice_to_def slice_to_def
      example_config_def py_float_def score_of_def Let_def)

section \<open>C5: the planner's fallback\<close>







section \<open>C3: no candidate is executed twice\<close>

lemma merge_new_inv:
  assumes "normalize_query ` set (pre @ merged) \<subseteq> seen"
    and "distinct (map normalize_query (pre @ merged))"
  shows "\<exists>new. fst (merge_new qs seen merged) = merged @ new
     \<and> normalize_query ` set (pre @ merged @ new) \<subseteq> snd (merge_new qs seen merged)
     \<and> distinct (map normalize_query (pre @ merged @ new))"
  using assms
proof (induction qs arbitrary: seen merged)
  case Nil
  then show ?case by simp
next
  case (Cons q qs)
  show ?case
  proof (cases "normalize_query q \<in> seen")
    case True
    then show ?thesis using Cons.IH [OF Cons.prems] by (simp add: Let_def)
  next
    case False
    have a: "normalize_query ` set (pre @ merged @ [q]) \<subseteq> insert (normalize_query q) seen"
      using Cons.prems(1) by auto
    have "normalize_query q \<notin> normalize_query ` set (pre @ merged)"
      using False Cons.prems(1) by blast
    then have b: "distinct (map normalize_query (pre @ merged @ [q]))"
      using Cons.prems(2) by auto
    obtain new where n: "fst (merge_new qs (insert (normalize_query q) seen) (merged @ [q])) = (merged @ [q]) @ new"
        "normalize_query ` set (pre @ (merged @ [q]) @ new) \<subseteq> snd (merge_new qs (insert (normalize_query q) seen) (merged @ [q]))"
        "distinct (map normalize_query (pre @ (merged @ [q]) @ new))"
      using Cons.IH [of "merged @ [q]" "insert (normalize_query q) seen"] a b by auto
    have "fst (merge_new (q # qs) seen merged) = merged @ (q # new)
     \<and> normalize_query ` set (pre @ merged @ (q # new)) \<subseteq> snd (merge_new (q # qs) seen merged)
     \<and> distinct (map normalize_query (pre @ merged @ (q # new)))"
      using False n by (simp add: Let_def)
    then show ?thesis by blast
  qed
qed

lemma plan_iteration_inv:
  assumes "normalize_query ` set pre \<subseteq> seen" "distinct (map normalize_query pre)"
    and "plan_iteration_candidates env cfg model_id uq md ttl evs seen iteration s
           = ((merged, pc, lc, seen'), s')"
  shows "normalize_query ` set (pre @ merged) \<subseteq> seen' \<and> distinct (map normalize_query (pre @ merged))"
proof -
  obtain planner s1 where g: "generate_sparql_candidates env cfg model_id uq md ttl
       (if evs \<noteq> [] then rank_and_pack_context (slice_to (top_k cfg) (sorted_by_score evs)) else [])
       iteration s = (planner, s1)"
    by (cases "generate_sparql_candidates env cfg model_id uq md ttl
       (if evs \<noteq> [] then rank_and_pack_context (slice_to (top_k cfg) (sorted_by_score evs)) else [])
       iteration s") auto
  let ?lex = "if enable_lexical_search cfg then build_lexical_candidates cfg uq else []"
  obtain m1 seen1 where m1: "merge_new planner seen [] = (m1, seen1)"
    by (cases "merge_new planner seen []") auto
  obtain m2 seen2 where m2: "merge_new ?lex seen1 m1 = (m2, seen2)"
    by (cases "merge_new ?lex seen1 m1") auto
  have r: "merged = m2" "seen' = seen2"
    using assms(3) g m1 m2 by (auto simp: plan_iteration_candidates_def Let_def)
  have 1: "normalize_query ` set (pre @ m1) \<subseteq> seen1 \<and> distinct (map normalize_query (pre @ m1))"
    using merge_new_inv [of pre "[]" seen planner] assms(1,2) m1 by auto
  obtain new where "m2 = m1 @ new" "normalize_query ` set (pre @ m1 @ new) \<subseteq> seen2"
      "distinct (map normalize_query (pre @ m1 @ new))"
    using merge_new_inv [of pre m1 seen1 ?lex] 1 m2 by auto
  then show ?thesis using r by simp
qed


lemma process_loop_inv:
  "loop_inv st \<Longrightarrow> loop_inv (fst (process_loop env cfg model_id uq md ttl start its st s))"
proof (induction its arbitrary: st s)
  case Nil
  then show ?case by simp
next
  case (Cons iteration later)
  let ?st1 = "st\<lparr>iterations_used := iteration\<rparr>"
  show ?case
  proof (cases "global_budget_reached env cfg start s")
    case True
    then show ?thesis using Cons.prems by (simp add: loop_inv_def)
  next
    case False
    obtain merged pc lc seen' s1 where p: "plan_iteration_candidates env cfg model_id uq md ttl
        (all_evidence ?st1) (seen_queries ?st1) iteration s = ((merged, pc, lc, seen'), s1)"
      by (cases "plan_iteration_candidates env cfg model_id uq md ttl
        (all_evidence ?st1) (seen_queries ?st1) iteration s") auto
    have pi: "normalize_query ` set (all_candidates st @ merged) \<subseteq> seen'
        \<and> distinct (map normalize_query (all_candidates st @ merged))"
      using plan_iteration_inv [OF _ _ p, of "all_candidates st"] Cons.prems
      by (simp add: loop_inv_def)
    let ?st2 = "?st1\<lparr>all_candidates := all_candidates ?st1 @ merged, seen_queries := seen'\<rparr>"
    show ?thesis
    proof (cases "merged = []")
      case True
      then show ?thesis using False p Cons.prems pi by (simp add: loop_inv_def)
    next
      case ne: False
      obtain evs s2 where b: "execute_sparql_batch env cfg merged uq s1 = (evs, s2)"
        by (cases "execute_sparql_batch env cfg merged uq s1") auto
      have q: "map ev_query evs = merged"
        using batch_queries [of env cfg merged uq s1] b by simp
      let ?st3 = "?st2\<lparr>all_evidence := all_evidence ?st2 @ evs\<rparr>"
      obtain stop best where e: "evaluate_early_stop env cfg (all_evidence ?st3) (best_score ?st3) iteration = (stop, best)"
        by (cases "evaluate_early_stop env cfg (all_evidence ?st3) (best_score ?st3) iteration") auto
      let ?st4 = "?st3\<lparr>best_score := best\<rparr>"
      have inv4: "loop_inv ?st4" using pi q Cons.prems by (simp add: loop_inv_def)
      show ?thesis
      proof (cases stop)
        case True
        then show ?thesis using False p ne b e inv4 by (simp add: loop_inv_def)
      next
        case nstop: False
        have "process_loop env cfg model_id uq md ttl start (iteration # later) st s
            = process_loop env cfg model_id uq md ttl start later ?st4 s2"
          using False p ne b e nstop by simp
        then show ?thesis using Cons.IH [OF inv4] by simp
      qed
    qed
  qed
qed

lemma initial_loop_inv: "loop_inv initial_loop_state"
  by (simp add: loop_inv_def initial_loop_state_def)

lemma run_iterations_inv: "loop_inv (snd (fst (run_iterations env cfg model_id user_query s)))"
proof -
  obtain md ttl s1 where l: "load_schema_context env cfg s = ((md, ttl), s1)"
    by (cases "load_schema_context env cfg s") auto
  have "snd (fst (run_iterations env cfg model_id user_query s))
      = fst (process_loop env cfg model_id user_query md ttl (monotonic env (world s))
               [1 .. max_iterations cfg] initial_loop_state s1)"
    using l by (simp add: run_iterations_def Let_def split: prod.splits)
  then show ?thesis using process_loop_inv [OF initial_loop_inv] by simp
qed

lemma process_queries:
  "queries (fst (process env cfg model_id user_query s))
     = all_candidates (snd (fst (run_iterations env cfg model_id user_query s)))"
  by (simp add: process_def build_process_result_def Let_def split: prod.splits)

text \<open>
  Claim C3. In one call of \<open>process\<close> the candidates handed to the batch executor, over
  all iterations, are the list \<open>queries\<close> of the result; the evidence has one record for
  each of them, in order; and no two of them are equal after normalisation (whitespace runs
  collapsed to one space, ends trimmed, lower case).
\<close>

theorem executed_candidates_distinct:
  "distinct (map normalize_query (queries (fst (process env cfg model_id user_query s))))
   \<and> queries (fst (process env cfg model_id user_query s))
       = all_candidates (snd (fst (run_iterations env cfg model_id user_query s)))
   \<and> map ev_query (all_evidence (snd (fst (run_iterations env cfg model_id user_query s))))
       = all_candidates (snd (fst (run_iterations env cfg model_id user_query s)))"
  using run_iterations_inv [of env cfg model_id user_query s]
  by (simp add: process_queries loop_inv_def)

section \<open>C8: the schema-metadata cache\<close>

lemma retry_cache:
  assumes "\<And>s ep r s'. run_query s ep = (r, s') \<Longrightarrow> schema_metadata_cache s' = schema_metadata_cache s"
  shows "run_with_endpoint_retry run_query eps errors s = (r, s')
    \<Longrightarrow> schema_metadata_cache s' = schema_metadata_cache s"
proof (induction eps arbitrary: errors s)
  case Nil
  then show ?case by (auto split: if_splits)
next
  case (Cons ep eps)
  obtain r1 s1 where r1: "run_query s ep = (r1, s1)" by (cases "run_query s ep") auto
  then have c1: "schema_metadata_cache s1 = schema_metadata_cache s" using assms by blast
  show ?case
  proof (cases r1)
    case (Inr res)
    then show ?thesis using Cons.prems r1 c1 by auto
  next
    case (Inl e)
    then have "run_with_endpoint_retry run_query eps (errors @ [e]) s1 = (r, s')"
      using Cons.prems r1 by simp
    then show ?thesis using Cons.IH c1 by metis
  qed
qed

lemma send_json_cache:
  "send_json env q s ep = (r, s') \<Longrightarrow> schema_metadata_cache s' = schema_metadata_cache s"
  by (auto simp: send_json_def split: prod.splits)

lemma send_turtle_cache:
  "send_turtle env q s ep = (r, s') \<Longrightarrow> schema_metadata_cache s' = schema_metadata_cache s"
  by (auto simp: send_turtle_def split: prod.splits)

lemma run_raw_json_cache:
  assumes "run_raw_json env cfg q s = (r, s')"
  shows "schema_metadata_cache s' = schema_metadata_cache s"
proof (rule retry_cache [OF _ assms [unfolded run_raw_json_def]])
  fix s1 ep r1 s1'
  assume a: "(if query_type_of q = ''DESCRIBE''
         then case send_turtle env q s1 ep of (Inl e, s') \<Rightarrow> (Inl e, s')
              | (Inr turtle, s') \<Rightarrow> (Inr (describe_payload cfg turtle), s')
         else send_json env q s1 ep) = (r1, s1')"
  show "schema_metadata_cache s1' = schema_metadata_cache s1"
  proof (cases "query_type_of q = ''DESCRIBE''")
    case True
    obtain rt st where t: "send_turtle env q s1 ep = (rt, st)" by (cases "send_turtle env q s1 ep") auto
    then have "s1' = st" using a True by (auto split: sum.splits)
    then show ?thesis using send_turtle_cache [OF t] by simp
  next
    case False
    then show ?thesis using a send_json_cache by auto
  qed
qed

lemma run_construct_cache:
  assumes "run_construct env cfg q s = (r, s')"
  shows "schema_metadata_cache s' = schema_metadata_cache s"
  by (rule retry_cache [OF _ assms [unfolded run_construct_def]]) (rule send_turtle_cache)

lemma run_candidate_cache:
  assumes "run_candidate env cfg q qt uq s = (r, s')"
  shows "schema_metadata_cache s' = schema_metadata_cache s"
proof (cases "qt \<in> {''SELECT'', ''ASK'', ''DESCRIBE''}")
  case True
  obtain r1 s1 where r1: "run_raw_json env cfg q s = (r1, s1)" by (cases "run_raw_json env cfg q s") auto
  then have "s' = s1" using assms True by (auto simp: run_candidate_def split: sum.splits)
  then show ?thesis using run_raw_json_cache [OF r1] by simp
next
  case False
  obtain r1 s1 where r1: "run_construct env cfg q s = (r1, s1)" by (cases "run_construct env cfg q s") auto
  then have "s' = s1" using assms False by (auto simp: run_candidate_def split: sum.splits)
  then show ?thesis using run_construct_cache [OF r1] by simp
qed

lemma batch_loop_cache:
  "schema_metadata_cache (snd (batch_loop env cfg uq cs ev s)) = schema_metadata_cache s"
proof (induction cs arbitrary: ev s)
  case Nil
  then show ?case by simp
next
  case (Cons c cs)
  show ?case
  proof (cases "accepted cfg c")
    case False
    then show ?thesis using Cons.IH by (simp add: batch_loop_step del: batch_loop.simps)
  next
    case True
    obtain r s1 where r: "run_candidate env cfg c (query_type_of c) uq s = (r, s1)"
      by (cases "run_candidate env cfg c (query_type_of c) uq s") auto
    have "\<exists>e. batch_loop env cfg uq (c # cs) ev s = batch_loop env cfg uq cs (ev @ [e]) s1"
      using True r by (cases r) (auto simp: batch_loop_step simp del: batch_loop.simps)
    then show ?thesis using Cons.IH run_candidate_cache [OF r] by metis
  qed
qed

lemma batch_cache:
  "execute_sparql_batch env cfg cs uq s = (evs, s') \<Longrightarrow> schema_metadata_cache s' = schema_metadata_cache s"
  using batch_loop_cache [of env cfg uq cs "[]" s] by (simp add: execute_sparql_batch_def)

lemma generate_cache:
  "generate_sparql_candidates env cfg model_id uq md ttl lc iteration s = (r, s')
    \<Longrightarrow> schema_metadata_cache s' = schema_metadata_cache s"
  by (auto simp: generate_sparql_candidates_def Let_def split: prod.splits)

lemma plan_iteration_cache:
  "plan_iteration_candidates env cfg model_id uq md ttl evs seen iteration s = (r, s')
    \<Longrightarrow> schema_metadata_cache s' = schema_metadata_cache s"
  by (auto simp: plan_iteration_candidates_def Let_def split: prod.splits dest: generate_cache)

lemma process_loop_cache:
  "schema_metadata_cache (snd (process_loop env cfg model_id uq md ttl start its st s))
     = schema_metadata_cache s"
proof (induction its arbitrary: st s)
  case Nil
  then show ?case by simp
next
  case (Cons iteration later)
  let ?st1 = "st\<lparr>iterations_used := iteration\<rparr>"
  show ?case
  proof (cases "global_budget_reached env cfg start s")
    case True
    then show ?thesis by simp
  next
    case False
    obtain merged pc lc seen' s1 where p: "plan_iteration_candidates env cfg model_id uq md ttl
        (all_evidence ?st1) (seen_queries ?st1) iteration s = ((merged, pc, lc, seen'), s1)"
      by (cases "plan_iteration_candidates env cfg model_id uq md ttl
        (all_evidence ?st1) (seen_queries ?st1) iteration s") auto
    have c1: "schema_metadata_cache s1 = schema_metadata_cache s" using plan_iteration_cache [OF p] .
    let ?st2 = "?st1\<lparr>all_candidates := all_candidates ?st1 @ merged, seen_queries := seen'\<rparr>"
    show ?thesis
    proof (cases "merged = []")
      case True
      then show ?thesis using False p c1 by simp
    next
      case ne: False
      obtain evs s2 where b: "execute_sparql_batch env cfg merged uq s1 = (evs, s2)"
        by (cases "execute_sparql_batch env cfg merged uq s1") auto
      have c2: "schema_metadata_cache s2 = schema_metadata_cache s" using batch_cache [OF b] c1 by simp
      let ?st3 = "?st2\<lparr>all_evidence := all_evidence ?st2 @ evs\<rparr>"
      obtain stop best where e: "evaluate_early_stop env cfg (all_evidence ?st3) (best_score ?st3) iteration = (stop, best)"
        by (cases "evaluate_early_stop env cfg (all_evidence ?st3) (best_score ?st3) iteration") auto
      let ?st4 = "?st3\<lparr>best_score := best\<rparr>"
      show ?thesis
      proof (cases stop)
        case True
        then show ?thesis using False p ne b e c2 by simp
      next
        case nstop: False
        have "process_loop env cfg model_id uq md ttl start (iteration # later) st s
            = process_loop env cfg model_id uq md ttl start later ?st4 s2"
          using False p ne b e nstop by simp
        then show ?thesis using Cons.IH [of ?st4 s2] c2 by simp
      qed
    qed
  qed
qed

lemma get_schema_ttl_cache:
  "get_schema_ttl env cfg s = (r, s') \<Longrightarrow> schema_metadata_cache s' = schema_metadata_cache s"
  by (auto simp: get_schema_ttl_def Let_def split: option.splits prod.splits sum.splits
      dest: run_construct_cache)

lemma metadata_cached:
  "schema_metadata_cache s = Some text \<Longrightarrow> get_schema_metadata env cfg s = (Inr text, s)"
  by (simp add: get_schema_metadata_def)

lemma metadata_success:
  "get_schema_metadata env cfg s = (Inr text, s1) \<Longrightarrow> schema_metadata_cache s1 = Some text"
  by (auto simp: get_schema_metadata_def Let_def split: option.splits prod.splits sum.splits)

lemma load_schema_context_metadata:
  assumes "get_schema_metadata env cfg s = (r, s1)"
  shows "fst (fst (load_schema_context env cfg s))
       = (case r of Inr text \<Rightarrow> text
          | Inl e \<Rightarrow> json_dumps env (JObj [(''classes'', JArr []), (''properties'', JArr []),
                                            (''warning'', JStr (str_exn env e))]))
     \<and> schema_metadata_cache (snd (load_schema_context env cfg s)) = schema_metadata_cache s1"
proof (cases "include_full_schema_ttl cfg")
  case False
  then show ?thesis using assms by (simp add: load_schema_context_def Let_def)
next
  case True
  obtain rt s2 where t: "get_schema_ttl env cfg s1 = (rt, s2)" by (cases "get_schema_ttl env cfg s1") auto
  have "schema_metadata_cache s2 = schema_metadata_cache s1" using get_schema_ttl_cache [OF t] .
  then show ?thesis using assms True t by (cases rt) (simp_all add: load_schema_context_def Let_def)
qed

lemma process_metadata:
  "schema_metadata (fst (process env cfg model_id uq s)) = fst (fst (load_schema_context env cfg s))
   \<and> schema_metadata_cache (snd (process env cfg model_id uq s))
       = schema_metadata_cache (snd (load_schema_context env cfg s))"
proof -
  obtain md ttl s1 where l: "load_schema_context env cfg s = ((md, ttl), s1)"
    by (cases "load_schema_context env cfg s") auto
  obtain st s2 where p: "process_loop env cfg model_id uq md ttl (monotonic env (world s))
        [1 .. max_iterations cfg] initial_loop_state s1 = (st, s2)"
    by (cases "process_loop env cfg model_id uq md ttl (monotonic env (world s))
        [1 .. max_iterations cfg] initial_loop_state s1") auto
  have "schema_metadata_cache s2 = schema_metadata_cache s1"
    using process_loop_cache [of env cfg model_id uq md ttl "monotonic env (world s)"
        "[1 .. max_iterations cfg]" initial_loop_state s1] p by simp
  then show ?thesis
    using l p by (simp add: process_def run_iterations_def build_process_result_def Let_def)
qed

lemma run_select_cache:
  assumes "run_select env cfg body pre s = (r, s')"
  shows "schema_metadata_cache s' = schema_metadata_cache s"
proof -
  obtain r0 s0 where a: "run_raw_json env cfg (pre @ nl @ body) s = (r0, s0)"
    by (cases "run_raw_json env cfg (pre @ nl @ body) s") auto
  have "s' = s0" using assms a by (auto simp: run_select_def split: sum.splits)
  then show ?thesis using run_raw_json_cache [OF a] by simp
qed

text \<open>
  A fetch of the metadata that fails caches nothing: the \<open>process\<close> call that met the
  failure returns the synthesized metadata with the warning, and the cache is as empty after
  it as before.
\<close>

lemma failed_fetch_caches_nothing:
  assumes "schema_metadata_cache s = None" "fst (get_schema_metadata env cfg s) = Inl e"
  shows "schema_metadata_cache (snd (get_schema_metadata env cfg s)) = None
     \<and> schema_metadata (fst (process env cfg model_id user_query s))
         = json_dumps env (JObj [(''classes'', JArr []), (''properties'', JArr []),
                                 (''warning'', JStr (str_exn env e))])
     \<and> schema_metadata_cache (snd (process env cfg model_id user_query s)) = None"
proof -
  obtain s1 where g: "get_schema_metadata env cfg s = (Inl e, s1)"
    using assms(2) by (cases "get_schema_metadata env cfg s") auto
  obtain rc sa where c: "run_select env cfg classes_body classes_prefix s = (rc, sa)"
    by (cases "run_select env cfg classes_body classes_prefix s") auto
  obtain rp sb where p: "run_select env cfg properties_body properties_prefix sa = (rp, sb)"
    by (cases "run_select env cfg properties_body properties_prefix sa") auto
  have "s1 = sa \<or> s1 = sb"
    using g c p assms(1) by (auto simp: get_schema_metadata_def Let_def split: sum.splits)
  then have 1: "schema_metadata_cache s1 = None"
    using run_select_cache [OF c] run_select_cache [OF p] assms(1) by auto
  show ?thesis
    using 1 g process_metadata [of env cfg model_id user_query s]
      load_schema_context_metadata [OF g]
    by simp
qed

text \<open>
  Claim C8, amended. Once \<open>get_schema_metadata\<close> has succeeded for an engine instance, its
  text is cached: the \<open>process\<close> call that fetched it and the next one return that same text
  as \<open>schema_metadata\<close>, the cache still holds it after \<open>process\<close>, and every call of
  \<open>get_schema_metadata\<close> on an engine whose cache holds it returns it and leaves the engine
  as it was.
\<close>

theorem schema_metadata_cached_after_success:
  assumes "fst (get_schema_metadata env cfg s) = Inr text"
  shows "schema_metadata (fst (process env cfg model_id user_query s)) = text
   \<and> schema_metadata (fst (process env cfg model_id' user_query'
                              (snd (process env cfg model_id user_query s)))) = text
   \<and> schema_metadata_cache (snd (process env cfg model_id user_query s)) = Some text
   \<and> (\<forall>s'. schema_metadata_cache s' = Some text \<longrightarrow> get_schema_metadata env cfg s' = (Inr text, s'))"
proof -
  obtain s1 where g: "get_schema_metadata env cfg s = (Inr text, s1)"
    using assms by (cases "get_schema_metadata env cfg s") auto
  have c1: "schema_metadata_cache s1 = Some text" using metadata_success [OF g] .
  let ?s2 = "snd (process env cfg model_id user_query s)"
  have 1: "schema_metadata (fst (process env cfg model_id user_query s)) = text"
    using process_metadata [of env cfg model_id user_query s] load_schema_context_metadata [OF g]
    by simp
  have 2: "schema_metadata_cache ?s2 = Some text"
    using process_metadata [of env cfg model_id user_query s] load_schema_context_metadata [OF g] c1
    by simp
  have g2: "get_schema_metadata env cfg ?s2 = (Inr text, ?s2)" using metadata_cached [OF 2] .
  have 3: "schema_metadata (fst (process env cfg model_id' user_query' ?s2)) = text"
    using process_metadata [of env cfg model_id' user_query' ?s2] load_schema_context_metadata [OF g2]
    by simp
  show ?thesis using 1 2 3 metadata_cached by blast
qed

text \<open>Unfolding these evaluates the schema fetch in the concrete world.\<close>

lemmas schema_eval_defs = load_schema_context_def get_schema_metadata_def run_select_def
  run_raw_json_def send_json_def build_endpoint_candidates_def replace_def example_env_def
  example_engine_def warmed_engine_def hurried_config_def example_config_def classes_body_def
  classes_prefix_def properties_body_def properties_prefix_def nl_def query_type_of_def
  query_type_keywords_def match_keyword_def is_space_def lower_char_def char_of_def bit_Suc_0_iff
  dict_get_def lookup_def json_slice_to_def slice_to_def str_exn_def Let_def

lemma warmed_fetch:
  "fst (get_schema_metadata example_env example_config warmed_engine)
     = Inr (''{'' @ dq @ ''classes'' @ dq @ '': [], '' @ dq @ ''properties'' @ dq @ '': []}'')"
  by (simp add: schema_eval_defs dq_def)

text \<open>C8 for an engine whose first fetch succeeds.\<close>

theorem schema_metadata_cached_after_success_witness:
  "fst (get_schema_metadata example_env example_config warmed_engine)
     = Inr (''{'' @ dq @ ''classes'' @ dq @ '': [], '' @ dq @ ''properties'' @ dq @ '': []}'')
   \<and> schema_metadata (fst (process example_env example_config ''m'' ''pump'' warmed_engine))
     = ''{'' @ dq @ ''classes'' @ dq @ '': [], '' @ dq @ ''properties'' @ dq @ '': []}''
   \<and> schema_metadata (fst (process example_env example_config ''m'' ''valve''
        (snd (process example_env example_config ''m'' ''pump'' warmed_engine))))
     = ''{'' @ dq @ ''classes'' @ dq @ '': [], '' @ dq @ ''properties'' @ dq @ '': []}''"
  using schema_metadata_cached_after_success [OF warmed_fetch, of "''m''" "''pump''" "''m''" "''valve''"]
    warmed_fetch
  by simp

lemma hurried_first_load:
  "load_schema_context example_env hurried_config example_engine
     = ((''{'' @ dq @ ''classes'' @ dq @ '': [], '' @ dq @ ''properties'' @ dq @ '': [], '' @ dq
          @ ''warning'' @ dq @ '': '' @ dq @ ''connection refused'' @ dq @ ''}'', []),
        \<lparr>world = 2,
          sent = [(''http://host.docker.internal:7200/x'', classes_prefix @ nl @ classes_body),
                  (''http://172.17.0.1:7200/x'', classes_prefix @ nl @ classes_body)],
          schema_metadata_cache = None, schema_ttl_cache = None\<rparr>)"
  by (simp add: schema_eval_defs dq_def)

lemma hurried_first_state:
  "snd (process example_env hurried_config ''m'' ''pump'' example_engine)
     = \<lparr>world = 2,
          sent = [(''http://host.docker.internal:7200/x'', classes_prefix @ nl @ classes_body),
                  (''http://172.17.0.1:7200/x'', classes_prefix @ nl @ classes_body)],
          schema_metadata_cache = None, schema_ttl_cache = None\<rparr>"
proof -
  have u: "[1 .. max_iterations hurried_config] = 1 # [2 .. 3]"
    by (simp add: hurried_config_def example_config_def upto_rec1)
  have m: "monotonic example_env (world example_engine) = 0"
    by (simp add: example_env_def example_engine_def)
  have b: "global_budget_reached example_env hurried_config 0
      \<lparr>world = 2,
          sent = [(''http://host.docker.internal:7200/x'', classes_prefix @ nl @ classes_body),
                  (''http://172.17.0.1:7200/x'', classes_prefix @ nl @ classes_body)],
          schema_metadata_cache = None, schema_ttl_cache = None\<rparr>"
    by (simp add: global_budget_reached_def example_env_def hurried_config_def)
  show ?thesis
    by (simp add: process_def run_iterations_def hurried_first_load u m b)
qed

lemma hurried_second_load:
  "fst (fst (load_schema_context example_env hurried_config
      \<lparr>world = 2,
          sent = [(''http://host.docker.internal:7200/x'', classes_prefix @ nl @ classes_body),
                  (''http://172.17.0.1:7200/x'', classes_prefix @ nl @ classes_body)],
          schema_metadata_cache = None, schema_ttl_cache = None\<rparr>))
     = ''{'' @ dq @ ''classes'' @ dq @ '': [], '' @ dq @ ''properties'' @ dq @ '': []}''"
  by (simp add: schema_eval_defs dq_def)

text \<open>
  Claim C8 as stated fails: the endpoint is down during the first \<open>process\<close> call and up
  during the second; the first returns the synthesized metadata with a warning and caches
  nothing, the second returns the fetched metadata.
\<close>

theorem schema_metadata_not_idempotent_counterexample:
  "schema_metadata (fst (process example_env hurried_config ''m'' ''pump'' example_engine))
     = ''{'' @ dq @ ''classes'' @ dq @ '': [], '' @ dq @ ''properties'' @ dq @ '': [], '' @ dq
          @ ''warning'' @ dq @ '': '' @ dq @ ''connection refused'' @ dq @ ''}''
   \<and> schema_metadata (fst (process example_env hurried_config ''m'' ''pump''
        (snd (process example_env hurried_config ''m'' ''pump'' example_engine))))
     = ''{'' @ dq @ ''classes'' @ dq @ '': [], '' @ dq @ ''properties'' @ dq @ '': []}''
   \<and> schema_metadata (fst (process example_env hurried_config ''m'' ''pump'' example_engine))
     \<noteq> schema_metadata (fst (process example_env hurried_config ''m'' ''pump''
        (snd (process example_env hurried_config ''m'' ''pump'' example_engine))))"
proof -
  have 1: "schema_metadata (fst (process example_env hurried_config ''m'' ''pump'' example_engine))
     = ''{'' @ dq @ ''classes'' @ dq @ '': [], '' @ dq @ ''properties'' @ dq @ '': [], '' @ dq
          @ ''warning'' @ dq @ '': '' @ dq @ ''connection refused'' @ dq @ ''}''"
    using process_metadata [of example_env hurried_config "''m''" "''pump''" example_engine]
    by (simp add: hurried_first_load)
  have 2: "schema_metadata (fst (process example_env hurried_config ''m'' ''pump''
        (snd (process example_env hurried_config ''m'' ''pump'' example_engine))))
     = ''{'' @ dq @ ''classes'' @ dq @ '': [], '' @ dq @ ''properties'' @ dq @ '': []}''"
    using process_metadata [of example_env hurried_config "''m''" "''pump''"
        "snd (process example_env hurried_config ''m'' ''pump'' example_engine)"]
    by (simp add: hurried_first_state hurried_second_load)
  show ?thesis unfolding 1 2 by (simp add: dq_def)
qed

end
